theory Spec2Isabelle
  imports Main "HOL-Library.Word"
begin

unbundle bit_operations_syntax

section \<open>Value types and field declarations\<close>

text \<open>
  \<open>field_t<T, NBitsT, TID, EndianessT>\<close> is a class template. Its four parameters are the
  static part of a field, collected in \<open>field_decl\<close> as \<open>value_type\<close>, \<open>n_bits\<close>, \<open>tid\<close> (the
  value of \<open>id()\<close>) and \<open>endian\<close>. \<open>T\<close> ranges over the integer types of at most four bytes
  (\<open>static_assert(sizeof(T) <= sizeof(std::uint32_t))\<close>).
\<close>

datatype int_type = UInt8 | Int8 | UInt16 | Int16 | UInt32 | Int32

datatype endianess = little | big

fun type_bits :: "int_type \<Rightarrow> nat" where
  "type_bits UInt8 = 8"
| "type_bits Int8 = 8"
| "type_bits UInt16 = 16"
| "type_bits Int16 = 16"
| "type_bits UInt32 = 32"
| "type_bits Int32 = 32"

fun type_signed :: "int_type \<Rightarrow> bool" where
  "type_signed UInt8 = False"
| "type_signed Int8 = True"
| "type_signed UInt16 = False"
| "type_signed Int16 = True"
| "type_signed UInt32 = False"
| "type_signed Int32 = True"

text \<open>\<open>std::numeric_limits<T>::min()\<close> and \<open>max()\<close>.\<close>

definition type_min :: "int_type \<Rightarrow> int" where
  "type_min T = (if type_signed T then - (2 ^ (type_bits T - 1)) else 0)"

definition type_max :: "int_type \<Rightarrow> int" where
  "type_max T = (if type_signed T then 2 ^ (type_bits T - 1) - 1 else 2 ^ type_bits T - 1)"

definition in_range :: "int_type \<Rightarrow> int \<Rightarrow> bool" where
  "in_range T v \<longleftrightarrow> type_min T \<le> v \<and> v \<le> type_max T"

text \<open>
  Conversion of an integer to \<open>T\<close> (\<open>static_cast<T>\<close>): reduction modulo \<open>2 ^ type_bits T\<close>,
  read in two's complement when \<open>T\<close> is signed.
\<close>

definition cast_to :: "int_type \<Rightarrow> int \<Rightarrow> int" where
  "cast_to T x =
     (let u = x mod 2 ^ type_bits T
      in if type_signed T \<and> 2 ^ (type_bits T - 1) \<le> u then u - 2 ^ type_bits T else u)"

text \<open>
  \<open>memcpy(&m_value, &raw, sizeof(m_value))\<close> and \<open>memcpy(&raw, &m_value, sizeof(m_value))\<close>
  with \<open>raw\<close> a \<open>std::uint32_t\<close> that was set to 0 before, on a little-endian machine: the
  first keeps the low \<open>sizeof(T)\<close> bytes of \<open>raw\<close>, the second writes the object representation
  of the value into the low bytes of \<open>raw\<close> and leaves the other bytes 0.
\<close>

definition from_raw :: "int_type \<Rightarrow> 32 word \<Rightarrow> int" where
  "from_raw T raw = cast_to T (uint raw)"

definition to_raw :: "int_type \<Rightarrow> int \<Rightarrow> 32 word" where
  "to_raw T v = word_of_int (v mod 2 ^ type_bits T)"

record field_decl =
  value_type :: int_type
  n_bits :: nat
  tid :: nat
  endian :: endianess

text \<open>\<open>n_bytes = (n_bits + 7) / 8\<close>.\<close>

definition n_bytes :: "field_decl \<Rightarrow> nat" where
  "n_bytes d = (n_bits d + 7) div 8"

text \<open>
  The declarations the compiler accepts: \<open>static_assert(NBitsT <= sizeof(T) * 8)\<close>, and the
  default condition's \<open>constexpr auto max\<close> evaluates \<open>(1 << NBitsT) - 1\<close> in \<open>int\<close> unless
  \<open>NBitsT == 32\<close>, which overflows for \<open>NBitsT = 31\<close> and so is no constant expression.
\<close>

definition wf_decl :: "field_decl \<Rightarrow> bool" where
  "wf_decl d \<longleftrightarrow> n_bits d \<le> type_bits (value_type d) \<and> n_bits d \<noteq> 31"

section \<open>Conditions\<close>

text \<open>
  \<open>m_condition\<close> is a \<open>std::function<bool(field_t&, const T&)>\<close>. The closures that
  \<open>field.hpp\<close> builds are the constructors below, one per builder; \<open>Default_range\<close> is the
  default member initialiser, \<open>Nullptr\<close> an empty \<open>std::function\<close>, and \<open>Custom\<close> a closure
  of the caller, given by the result it returns and the value it leaves in the field.
\<close>

datatype condition =
    Nullptr
  | Default_range
  | Equal_to_set "int list"
  | Equal_to int
  | Not_equal_to int
  | Greater_than int
  | Less_than int
  | Greater_equal_to int
  | Less_equal_to int
  | Between int int
  | Clamp int int
  | Custom "int \<Rightarrow> bool \<times> int"

record field_t =
  decl :: field_decl
  m_condition :: condition
  m_valid :: bool
  m_value :: int

text \<open>
  The upper bound of the default condition:
  \<open>static_cast<T>(NBitsT == 32 ? std::numeric_limits<T>::max() : (1 << NBitsT) - 1)\<close>.
\<close>

definition default_max :: "field_decl \<Rightarrow> int" where
  "default_max d =
     cast_to (value_type d)
       (if n_bits d = 32 then type_max (value_type d) else 2 ^ n_bits d - 1)"

text \<open>
  Running a condition on the value \<open>v\<close> of a field: the result, and the value the field
  holds afterwards (only \<open>clamp\<close>, through \<open>force\<close>, and a custom closure change it).
  An empty \<open>std::function\<close> cannot be called, and \<open>validate\<close> does not call it.
\<close>

fun run_condition :: "field_decl \<Rightarrow> condition \<Rightarrow> int \<Rightarrow> bool \<times> int" where
  "run_condition d Default_range v = (type_min (value_type d) \<le> v \<and> v \<le> default_max d, v)"
| "run_condition d (Equal_to_set values) v = (v \<in> set values, v)"
| "run_condition d (Equal_to x) v = (v = x, v)"
| "run_condition d (Not_equal_to x) v = (v \<noteq> x, v)"
| "run_condition d (Greater_than x) v = (v > x, v)"
| "run_condition d (Less_than x) v = (v < x, v)"
| "run_condition d (Greater_equal_to x) v = (v \<ge> x, v)"
| "run_condition d (Less_equal_to x) v = (v \<le> x, v)"
| "run_condition d (Between lo hi) v = (v \<ge> lo \<and> v \<le> hi, v)"
| "run_condition d (Clamp lo hi) v =
     (if v < lo then (True, lo) else if v > hi then (True, hi) else (True, v))"
| "run_condition d (Custom f) v = f v"

text \<open>\<open>validate()\<close>: an empty condition accepts; otherwise the condition decides.\<close>

definition validate :: "field_t \<Rightarrow> field_t" where
  "validate f =
     (case m_condition f of
        Nullptr \<Rightarrow> f\<lparr>m_valid := True\<rparr>
      | c \<Rightarrow> (case run_condition (decl f) c (m_value f) of
                (ok, v') \<Rightarrow> f\<lparr>m_value := v', m_valid := ok\<rparr>))"

text \<open>\<open>operator=(const value_type&)\<close> and \<open>init\<close>: store, then validate.\<close>

definition assign :: "field_t \<Rightarrow> int \<Rightarrow> field_t" where
  "assign f v = validate (f\<lparr>m_value := v\<rparr>)"

text \<open>\<open>force\<close>: store and mark valid.\<close>

definition force :: "field_t \<Rightarrow> int \<Rightarrow> field_t" where
  "force f v = f\<lparr>m_value := v, m_valid := True\<rparr>"

text \<open>The constructors: \<open>field_t()\<close> and \<open>field_t(condition)\<close>; both leave the value 0 and
  \<open>m_valid\<close> false.\<close>

definition field_with :: "field_decl \<Rightarrow> condition \<Rightarrow> field_t" where
  "field_with d c = \<lparr>decl = d, m_condition = c, m_valid = False, m_value = 0\<rparr>"

text \<open>\<open>any()\<close> returns \<open>field_t{}\<close>, the field with the default member initialisers.\<close>

definition any :: "field_decl \<Rightarrow> field_t" where
  "any d = field_with d Default_range"

definition between :: "field_decl \<Rightarrow> int \<Rightarrow> int \<Rightarrow> field_t" where
  "between d lo hi = field_with d (Between lo hi)"

definition clamp :: "field_decl \<Rightarrow> int \<Rightarrow> int \<Rightarrow> field_t" where
  "clamp d lo hi = field_with d (Clamp lo hi)"

text \<open>The copy constructor copies the condition and the value; \<open>m_valid\<close> starts false.\<close>

definition copy_field :: "field_t \<Rightarrow> field_t" where
  "copy_field f = f\<lparr>m_valid := False\<rparr>"

section \<open>Reading bits\<close>

text \<open>
  \<open>bytes\<close> is a pointer into a buffer; the buffer is the list, and \<open>bytes[k]\<close> outside it is
  undefined behaviour (\<open>None\<close>): the field does not check.
\<close>

definition byte_at :: "8 word list \<Rightarrow> 64 word \<Rightarrow> 8 word option" where
  "byte_at bytes k = (if unat k < length bytes then Some (bytes ! unat k) else None)"

text \<open>
  The loop of \<open>lsb_unmarshal\<close>,
  \<open>for (std::size_t i = bit_offset; i < bit_offset + n_bits; i++)\<close>, with \<open>stop\<close> the value of
  \<open>bit_offset + n_bits\<close> in \<open>std::size_t\<close>. The byte is promoted to \<open>int\<close> before the shifts.
\<close>

function lsb_loop ::
  "8 word list \<Rightarrow> 64 word \<Rightarrow> 64 word \<Rightarrow> 64 word \<Rightarrow> 32 word \<Rightarrow> 32 word option" where
  "lsb_loop bytes bit_offset stop i raw =
     (if i < stop then
        (case byte_at bytes (i div 8) of
           None \<Rightarrow> None
         | Some b \<Rightarrow>
             lsb_loop bytes bit_offset stop (i + 1)
               (raw OR push_bit (unat (i - bit_offset))
                         (drop_bit (unat (i mod 8)) (ucast b) AND 1)))
      else Some raw)"
  by pat_completeness auto
termination
proof (relation "measure (\<lambda>(bytes, bit_offset, stop, i, raw). unat stop - unat i)")
  show "wf (measure (\<lambda>(bytes, bit_offset, stop, i, raw). unat stop - unat i))"
    by simp
next
  fix bytes :: "8 word list" and bit_offset stop i :: "64 word" and raw :: "32 word" and b :: "8 word"
  assume "i < stop"
  then have less: "unat i < unat stop"
    by (simp add: word_less_nat_alt)
  have "unat stop < 2 ^ 64"
    using unsigned_less [of stop] by simp
  with less have "unat i + 1 < 2 ^ 64"
    by linarith
  then have "unat (i + 1) = unat i + 1"
    by (simp add: unat_word_ariths)
  with less show "((bytes, bit_offset, stop, i + 1,
       raw OR push_bit (unat (i - bit_offset)) (drop_bit (unat (i mod 8)) (ucast b) AND 1)),
      (bytes, bit_offset, stop, i, raw))
    \<in> measure (\<lambda>(bytes, bit_offset, stop, i, raw). unat stop - unat i)"
    by simp
qed

definition lsb_unmarshal :: "field_decl \<Rightarrow> 8 word list \<Rightarrow> 64 word \<Rightarrow> 32 word option" where
  "lsb_unmarshal d bytes bit_offset =
     lsb_loop bytes bit_offset (bit_offset + of_nat (n_bits d)) bit_offset 0"

text \<open>
  The loop of \<open>msb_unmarshal\<close>: \<open>raw <<= 1; raw |= (bytes[i / 8] >> (7 - (i % 8))) & 1;\<close>
\<close>

function msb_loop ::
  "8 word list \<Rightarrow> 64 word \<Rightarrow> 64 word \<Rightarrow> 32 word \<Rightarrow> 32 word option" where
  "msb_loop bytes stop i raw =
     (if i < stop then
        (case byte_at bytes (i div 8) of
           None \<Rightarrow> None
         | Some b \<Rightarrow>
             msb_loop bytes stop (i + 1)
               (push_bit 1 raw OR (drop_bit (unat (7 - i mod 8)) (ucast b) AND 1)))
      else Some raw)"
  by pat_completeness auto
termination
proof (relation "measure (\<lambda>(bytes, stop, i, raw). unat stop - unat i)")
  show "wf (measure (\<lambda>(bytes, stop, i, raw). unat stop - unat i))"
    by simp
next
  fix bytes :: "8 word list" and stop i :: "64 word" and raw :: "32 word" and b :: "8 word"
  assume "i < stop"
  then have less: "unat i < unat stop"
    by (simp add: word_less_nat_alt)
  have "unat stop < 2 ^ 64"
    using unsigned_less [of stop] by simp
  with less have "unat i + 1 < 2 ^ 64"
    by linarith
  then have "unat (i + 1) = unat i + 1"
    by (simp add: unat_word_ariths)
  with less show "((bytes, stop, i + 1,
       push_bit 1 raw OR (drop_bit (unat (7 - i mod 8)) (ucast b) AND 1)),
      (bytes, stop, i, raw))
    \<in> measure (\<lambda>(bytes, stop, i, raw). unat stop - unat i)"
    by simp
qed

definition msb_unmarshal :: "field_decl \<Rightarrow> 8 word list \<Rightarrow> 64 word \<Rightarrow> 32 word option" where
  "msb_unmarshal d bytes bit_offset =
     msb_loop bytes (bit_offset + of_nat (n_bits d)) bit_offset 0"

text \<open>The equations of the two loops unfold without end; they are used one step at a time.\<close>

declare lsb_loop.simps [simp del] msb_loop.simps [simp del]

text \<open>One turn of the loop of \<open>msb_unmarshal\<close> on the bit with index \<open>j\<close> of the buffer.\<close>

definition msb_step :: "8 word list \<Rightarrow> 32 word \<Rightarrow> nat \<Rightarrow> 32 word" where
  "msb_step bytes raw j =
     push_bit 1 raw OR (if bit (bytes ! (j div 8)) (7 - j mod 8) then 1 else 0)"

text \<open>
  \<open>unmarshal\<close>: decode \<open>raw\<close> in the field's bit order (\<open>unmarshal_raw\<close>), copy its low
  bytes into the value, validate. The function returns \<open>is_valid()\<close>, which is \<open>m_valid\<close> of
  the field returned here.
\<close>

definition unmarshal_raw :: "field_decl \<Rightarrow> 8 word list \<Rightarrow> 64 word \<Rightarrow> 32 word option" where
  "unmarshal_raw d bytes bit_offset =
     (if endian d = little then lsb_unmarshal d bytes bit_offset
      else msb_unmarshal d bytes bit_offset)"

definition unmarshal :: "field_t \<Rightarrow> 8 word list \<Rightarrow> 64 word \<Rightarrow> field_t option" where
  "unmarshal f bytes bit_offset =
     (case unmarshal_raw (decl f) bytes bit_offset of
        None \<Rightarrow> None
      | Some raw \<Rightarrow> Some (validate (f\<lparr>m_value := from_raw (value_type (decl f)) raw\<rparr>)))"

section \<open>Writing bits\<close>

text \<open>
  The two loops of \<open>marshal\<close>, over \<open>i = 0, ..., n_bits - 1\<close>:
  \<open>bytes[i / 8] |= ((raw >> i) & 1) << (i % 8)\<close> and
  \<open>bytes[i / 8] |= ((raw >> (n_bits - i - 1)) & 1) << (i % 8)\<close>.
\<close>

definition marshal_little_step :: "32 word \<Rightarrow> 8 word list \<Rightarrow> nat \<Rightarrow> 8 word list" where
  "marshal_little_step raw bytes i =
     bytes[i div 8 := bytes ! (i div 8) OR ucast (push_bit (i mod 8) (drop_bit i raw AND 1))]"

definition marshal_big_step :: "nat \<Rightarrow> 32 word \<Rightarrow> 8 word list \<Rightarrow> nat \<Rightarrow> 8 word list" where
  "marshal_big_step n raw bytes i =
     bytes[i div 8 :=
       bytes ! (i div 8) OR ucast (push_bit (i mod 8) (drop_bit (n - i - 1) raw AND 1))]"

definition marshal :: "field_t \<Rightarrow> 8 word list" where
  "marshal f =
     (let bytes = replicate (n_bytes (decl f)) 0;
          raw = to_raw (value_type (decl f)) (m_value f)
      in if endian (decl f) = little
         then foldl (marshal_little_step raw) bytes [0..<n_bits (decl f)]
         else foldl (marshal_big_step (n_bits (decl f)) raw) bytes [0..<n_bits (decl f)])"

section \<open>Messages\<close>

text \<open>
  What a call does besides changing the message is recorded as a list of events: the calls
  to the logger, named as its member functions are, and the calls of the two hooks of the
  message with the fields they see. A callback is a \<open>std::function<void(const msg_t&)>\<close>
  of the caller; it cannot change the message, so the model keeps a name for it only.
  The member \<open>fields\<close> of \<open>msg_t\<close> is \<open>msg_fields\<close> here, and its \<open>n_bits\<close> is \<open>msg_n_bits\<close>.
\<close>

type_synonym callback = nat

datatype event =
    On_unmarshal_start
  | On_error_bit_size "64 word" "64 word"
  | On_error_condition nat
  | On_error_unmarshal nat
  | On_unmarshal_end
  | Custom_validator_run "field_t list"
  | Callback_run callback "field_t list"

record msg_t =
  msg_fields :: "field_t list"
  valid :: bool
  m_callback :: "callback option"
  m_custom_validator :: "(field_t list \<Rightarrow> bool) option"

definition n_fields :: "msg_t \<Rightarrow> nat" where
  "n_fields m = length (msg_fields m)"

text \<open>\<open>sum_bits\<close>, in \<open>std::size_t\<close>; the source has no instance for an empty list.\<close>

fun sum_bits :: "field_decl list \<Rightarrow> 64 word" where
  "sum_bits [] = 0"
| "sum_bits [d] = of_nat (n_bits d)"
| "sum_bits (d # ds) = of_nat (n_bits d) + sum_bits ds"

definition msg_n_bits :: "msg_t \<Rightarrow> 64 word" where
  "msg_n_bits m = sum_bits (map decl (msg_fields m))"

text \<open>
  \<open>unmarshal_tuple<I>\<close> walks the tuple from index \<open>I\<close>; here the list is the part of the
  tuple from \<open>I\<close> on. The result is the fields after the walk, the value returned and the
  logger calls.
\<close>

fun unmarshal_tuple ::
  "8 word list \<Rightarrow> 64 word \<Rightarrow> field_t list \<Rightarrow> (field_t list \<times> bool \<times> event list) option" where
  "unmarshal_tuple bytes bit_offset [] = Some ([], True, [])"
| "unmarshal_tuple bytes bit_offset (field # rest) =
     (case unmarshal field bytes bit_offset of
        None \<Rightarrow> None
      | Some field' \<Rightarrow>
          if \<not> m_valid field'
          then Some (field' # rest, False, [On_error_unmarshal (tid (decl field'))])
          else (case unmarshal_tuple bytes (bit_offset + of_nat (n_bits (decl field))) rest of
                  None \<Rightarrow> None
                | Some (rest', ok, log) \<Rightarrow> Some (field' # rest', ok, log)))"

fun is_valid_tuple :: "field_t list \<Rightarrow> bool \<times> event list" where
  "is_valid_tuple [] = (True, [])"
| "is_valid_tuple (field # rest) =
     (if \<not> m_valid field then (False, [On_error_condition (tid (decl field))])
      else is_valid_tuple rest)"

text \<open>\<open>is_valid()\<close>: the result and what it calls.\<close>

definition is_valid :: "msg_t \<Rightarrow> bool \<times> event list" where
  "is_valid m =
     (case is_valid_tuple (msg_fields m) of
        (v, log) \<Rightarrow>
          (case m_custom_validator m of
             Some cv \<Rightarrow>
               if v then (cv (msg_fields m), log @ [Custom_validator_run (msg_fields m)]) else (False, log)
           | None \<Rightarrow> (v, log)))"

text \<open>
  \<open>on_unmarshal\<close>, in two parts: the size guard, and what follows it
  (\<open>on_unmarshal_decode\<close>). The result is the message after the call, the value returned
  and the events of the call, or \<open>None\<close> when a field read outside the
  buffer.
\<close>

definition on_unmarshal_decode ::
  "msg_t \<Rightarrow> 8 word list \<Rightarrow> 64 word \<Rightarrow> (msg_t \<times> bool \<times> event list) option" where
  "on_unmarshal_decode m bytes bit_offset =
     (case unmarshal_tuple bytes bit_offset (msg_fields m) of
        None \<Rightarrow> None
      | Some (fs, ok, log) \<Rightarrow>
          let m1 = m\<lparr>msg_fields := fs, valid := ok\<rparr>;
              log1 = On_unmarshal_start # log @ [On_unmarshal_end];
              (m2, log2) =
                (case m_custom_validator m1 of
                   Some cv \<Rightarrow>
                     if valid m1
                     then (m1\<lparr>valid := cv (msg_fields m1)\<rparr>, log1 @ [Custom_validator_run (msg_fields m1)])
                     else (m1, log1)
                 | None \<Rightarrow> (m1, log1));
              log3 =
                (case m_callback m2 of
                   Some cb \<Rightarrow> if valid m2 then log2 @ [Callback_run cb (msg_fields m2)] else log2
                 | None \<Rightarrow> log2)
          in Some (m2, valid m2, log3))"

definition on_unmarshal ::
  "msg_t \<Rightarrow> 8 word list \<Rightarrow> 64 word \<Rightarrow> 64 word \<Rightarrow> (msg_t \<times> bool \<times> event list) option" where
  "on_unmarshal m bytes len bit_offset =
     (if len * 8 - bit_offset < msg_n_bits m
      then Some (m\<lparr>valid := False\<rparr>, False,
                 [On_unmarshal_start, On_error_bit_size (len * 8 - bit_offset) (msg_n_bits m)])
      else on_unmarshal_decode m bytes bit_offset)"

text \<open>
  The copy constructor of \<open>msg_t\<close> copies the two hooks and the fields (each through the copy
  constructor of its field); \<open>valid\<close> starts false.
\<close>

definition copy_msg :: "msg_t \<Rightarrow> msg_t" where
  "copy_msg m = m\<lparr>msg_fields := map copy_field (msg_fields m), valid := False\<rparr>"

text \<open>
  \<open>set_callback\<close> and \<open>set_custom_validator\<close> store the hook in the receiver and return
  \<open>*this\<close> by value (the return type is \<open>auto\<close>): the first component is the receiver after
  the call, the second the copy that is returned.
\<close>

definition set_callback :: "msg_t \<Rightarrow> callback option \<Rightarrow> msg_t \<times> msg_t" where
  "set_callback m cb = (m\<lparr>m_callback := cb\<rparr>, copy_msg (m\<lparr>m_callback := cb\<rparr>))"

definition set_custom_validator ::
  "msg_t \<Rightarrow> (field_t list \<Rightarrow> bool) option \<Rightarrow> msg_t \<times> msg_t" where
  "set_custom_validator m cv =
     (m\<lparr>m_custom_validator := cv\<rparr>, copy_msg (m\<lparr>m_custom_validator := cv\<rparr>))"

text \<open>
  The factories. The constructors of \<open>msg_t\<close> copy the fields; \<open>make_msg_cat\<close> puts the
  fields of the other message before the new ones and takes neither its callback nor its
  custom validator.
\<close>

definition make_msg :: "callback option \<Rightarrow> field_t list \<Rightarrow> msg_t" where
  "make_msg cb fs =
     \<lparr>msg_fields = map copy_field fs, valid = False, m_callback = cb, m_custom_validator = None\<rparr>"

definition make_msg_cat :: "callback option \<Rightarrow> msg_t \<Rightarrow> field_t list \<Rightarrow> msg_t" where
  "make_msg_cat cb other fs = make_msg cb (msg_fields other @ fs)"

text \<open>
  The message of the example program: \<open>first_f\<close> (4 bits) carrying \<open>between(0, 2)\<close>, then
  \<open>second_f\<close> (12 bits) carrying \<open>any()\<close>, both over \<open>std::uint16_t\<close>.
\<close>

definition first_f :: field_decl where
  "first_f = \<lparr>value_type = UInt16, n_bits = 4, tid = 0, endian = little\<rparr>"

definition second_f :: field_decl where
  "second_f = \<lparr>value_type = UInt16, n_bits = 12, tid = 0, endian = little\<rparr>"

definition example_msg :: msg_t where
  "example_msg = make_msg (Some 0) [between first_f 0 2, any second_f]"

text \<open>The same layout built in two steps: a message of \<open>first_f\<close> alone, extended by
  \<open>second_f\<close> with \<open>make_msg_cat\<close>.\<close>

definition first_msg :: msg_t where
  "first_msg = make_msg None [between first_f 0 2]"

definition cat_msg :: msg_t where
  "cat_msg = make_msg_cat None first_msg [any second_f]"

text \<open>Two more declarations: a big-endian field of 4 bits over \<open>std::uint8_t\<close>, and a
  field that takes all 8 bits of a \<open>std::int8_t\<close>.\<close>

definition big_f :: field_decl where
  "big_f = \<lparr>value_type = UInt8, n_bits = 4, tid = 0, endian = big\<rparr>"

definition int8_f :: field_decl where
  "int8_f = \<lparr>value_type = Int8, n_bits = 8, tid = 0, endian = little\<rparr>"

text \<open>A custom validator for the example message: the first field is below the second.\<close>

fun first_below_second :: "field_t list \<Rightarrow> bool" where
  "first_below_second (a # b # rest) = (m_value a < m_value b)"
| "first_below_second fs = False"

section \<open>Facts about the walk over the fields\<close>

lemma sum_bits_Cons: "sum_bits (d # ds) = of_nat (n_bits d) + sum_bits ds"
  by (cases ds) simp_all

lemma sum_bits_append: "sum_bits (xs @ ys) = sum_bits xs + sum_bits ys"
  by (induction xs) (simp_all add: sum_bits_Cons del: sum_bits.simps(3))

lemma decl_validate: "decl (validate f) = decl f"
  by (simp add: validate_def split: condition.splits prod.splits)

lemma decl_unmarshal: "unmarshal f bytes off = Some f' \<Longrightarrow> decl f' = decl f"
  by (auto simp: unmarshal_def decl_validate split: option.splits)

lemma validate_stores:
  assumes "\<not> m_valid (validate f)" and "\<forall>g. m_condition f \<noteq> Custom g"
  shows "m_value (validate f) = m_value f"
  using assms by (cases "m_condition f") (simp_all add: validate_def split: if_splits)

lemma unmarshal_tuple_True_log:
  "unmarshal_tuple bytes off fs = Some (fs', True, log) \<Longrightarrow> log = []"
  by (induction fs arbitrary: off fs') (auto split: option.splits if_splits)

lemma unmarshal_tuple_log:
  "unmarshal_tuple bytes off fs = Some (fs', ok, log) \<Longrightarrow>
     \<forall>e\<in>set log. \<exists>i. e = On_error_unmarshal i"
  by (induction fs arbitrary: off fs') (auto split: option.splits if_splits)

lemma unmarshal_tuple_length:
  "unmarshal_tuple bytes off fs = Some (fs', ok, log) \<Longrightarrow> length fs' = length fs"
  by (induction fs arbitrary: off fs') (auto split: option.splits if_splits)

lemma unmarshal_tuple_True_valid:
  "unmarshal_tuple bytes off fs = Some (fs', True, log) \<Longrightarrow> list_all m_valid fs'"
  by (induction fs arbitrary: off fs') (auto split: option.splits if_splits)

lemma is_valid_tuple_append:
  "list_all m_valid pre \<Longrightarrow> is_valid_tuple (pre @ rest) = is_valid_tuple rest"
  by (induction pre) simp_all

text \<open>The walk over two lists in a row: the second starts where the first stopped, unless
  the first was cut short.\<close>

lemma unmarshal_tuple_append:
  "unmarshal_tuple bytes off (xs @ ys) =
     (case unmarshal_tuple bytes off xs of
        None \<Rightarrow> None
      | Some (xs', ok, log) \<Rightarrow>
          if ok
          then (case unmarshal_tuple bytes (off + sum_bits (map decl xs)) ys of
                  None \<Rightarrow> None
                | Some (ys', ok', log') \<Rightarrow> Some (xs' @ ys', ok', log'))
          else Some (xs' @ ys, False, log))"
proof (induction xs arbitrary: off)
  case Nil
  then show ?case by (simp split: option.splits)
next
  case (Cons x xs)
  show ?case
  proof (cases "unmarshal x bytes off")
    case None
    then show ?thesis by simp
  next
    case (Some x')
    show ?thesis
    proof (cases "m_valid x'")
      case False
      with Some show ?thesis by simp
    next
      case True
      with Some show ?thesis
        by (simp add: Cons.IH sum_bits_Cons add.assoc del: sum_bits.simps(3)
            split: option.splits)
    qed
  qed
qed

text \<open>Field \<open>j\<close> is decoded at the offset its predecessors add up to, when they were all
  valid; otherwise it is not touched.\<close>

lemma unmarshal_tuple_in_order:
  assumes "unmarshal_tuple bytes bit_offset fs = Some (fs', ok, log)" and "j < length fs"
  shows "(if \<forall>i<j. m_valid (fs' ! i)
          then unmarshal (fs ! j) bytes (bit_offset + sum_bits (map decl (take j fs))) = Some (fs' ! j)
          else fs' ! j = fs ! j)"
  using assms
proof (induction fs arbitrary: bit_offset fs' j)
  case Nil
  then show ?case by simp
next
  case (Cons x xs)
  from Cons.prems(1) obtain x' where x': "unmarshal x bytes bit_offset = Some x'"
    by (auto split: option.splits)
  show ?case
  proof (cases "m_valid x'")
    case False
    with Cons.prems x' have fs': "fs' = x' # xs"
      by simp
    show ?thesis
    proof (cases j)
      case 0
      with x' fs' show ?thesis by simp
    next
      case (Suc j')
      with False fs' show ?thesis by auto
    qed
  next
    case True
    with Cons.prems x' obtain rest' where
      rest: "unmarshal_tuple bytes (bit_offset + of_nat (n_bits (decl x))) xs = Some (rest', ok, log)"
      and fs': "fs' = x' # rest'"
      by (auto split: option.splits)
    show ?thesis
    proof (cases j)
      case 0
      with x' fs' show ?thesis by simp
    next
      case (Suc j')
      with Cons.prems(2) have j': "j' < length xs" by simp
      have all: "(\<forall>i<Suc j'. m_valid ((x' # rest') ! i)) \<longleftrightarrow> (\<forall>i<j'. m_valid (rest' ! i))"
        using True by (auto simp: less_Suc_eq_0_disj)
      show ?thesis
        using Cons.IH [OF rest j'] unfolding Suc fs' all
        by (auto simp: sum_bits_Cons add.assoc simp del: sum_bits.simps(3) split: if_splits)
    qed
  qed
qed

lemma unmarshal_copy_field: "unmarshal (copy_field f) bytes off = unmarshal f bytes off"
  by (cases "m_condition f")
    (simp_all add: unmarshal_def copy_field_def validate_def split: option.splits prod.splits)

lemma decl_copy_field [simp]: "decl (copy_field f) = decl f"
  by (simp add: copy_field_def)

lemma unmarshal_tuple_copies:
  "unmarshal_tuple bytes off (map copy_field fs) = Some (fs', True, log) \<Longrightarrow>
     unmarshal_tuple bytes off fs = Some (fs', True, log)"
proof (induction fs arbitrary: off fs')
  case Nil
  then show ?case by simp
next
  case (Cons x xs)
  then show ?case
    by (auto simp: unmarshal_copy_field split: option.splits if_splits)
qed

section \<open>The example message on the two buffers of the example program\<close>

lemma first_f_simps [simp]:
  "value_type first_f = UInt16" "n_bits first_f = 4" "tid first_f = 0" "endian first_f = little"
  by (simp_all add: first_f_def)

lemma second_f_simps [simp]:
  "value_type second_f = UInt16" "n_bits second_f = 12" "tid second_f = 0"
  "endian second_f = little"
  by (simp_all add: second_f_def)

lemma example_msg_fields:
  "msg_fields example_msg =
     [\<lparr>decl = first_f, m_condition = Between 0 2, m_valid = False, m_value = 0\<rparr>,
      \<lparr>decl = second_f, m_condition = Default_range, m_valid = False, m_value = 0\<rparr>]"
  by (simp add: example_msg_def make_msg_def copy_field_def between_def any_def field_with_def)

lemma example_msg_hooks:
  "m_callback example_msg = Some 0" "m_custom_validator example_msg = None"
  by (simp_all add: example_msg_def make_msg_def)

lemma first_f_raw_84: "unmarshal_raw first_f [0x84, 0x0A] 0 = Some 4"
  by code_simp

lemma second_f_raw_84: "unmarshal_raw second_f [0x84, 0x0A] 4 = Some 168"
  by code_simp

lemma first_f_raw_80: "unmarshal_raw first_f [0x80, 0x0A] 0 = Some 0"
  by code_simp

lemma second_f_raw_80: "unmarshal_raw second_f [0x80, 0x0A] 4 = Some 168"
  by code_simp

lemma from_raw_UInt16_small [simp]:
  "from_raw UInt16 0 = 0" "from_raw UInt16 4 = 4" "from_raw UInt16 168 = 168"
  by (simp_all add: from_raw_def cast_to_def)

lemma default_max_second_f: "default_max second_f = 4095"
  by (simp add: default_max_def cast_to_def)

lemma example_tuple_80:
  "unmarshal_tuple [0x80, 0x0A] 0 (msg_fields example_msg) =
     Some ([\<lparr>decl = first_f, m_condition = Between 0 2, m_valid = True, m_value = 0\<rparr>,
            \<lparr>decl = second_f, m_condition = Default_range, m_valid = True, m_value = 168\<rparr>],
           True, [])"
  by (simp add: example_msg_fields unmarshal_def first_f_raw_80 second_f_raw_80 validate_def
      default_max_second_f type_min_def)

lemma any_second_f_84:
  "unmarshal (any second_f) [0x84, 0x0A] 4 =
     Some \<lparr>decl = second_f, m_condition = Default_range, m_valid = True, m_value = 168\<rparr>"
  by (simp add: unmarshal_def any_def field_with_def second_f_raw_84 validate_def
      default_max_second_f type_min_def)

lemma any_second_f_80:
  "unmarshal (any second_f) [0x80, 0x0A] 4 =
     Some \<lparr>decl = second_f, m_condition = Default_range, m_valid = True, m_value = 168\<rparr>"
  by (simp add: unmarshal_def any_def field_with_def second_f_raw_80 validate_def
      default_max_second_f type_min_def)

lemma first_msg_fields:
  "msg_fields first_msg =
     [\<lparr>decl = first_f, m_condition = Between 0 2, m_valid = False, m_value = 0\<rparr>]"
  by (simp add: first_msg_def make_msg_def copy_field_def between_def field_with_def)

lemma first_msg_n_bits: "msg_n_bits first_msg = 4"
  by (simp add: msg_n_bits_def first_msg_fields)

lemma cat_msg_fields: "msg_fields cat_msg = msg_fields example_msg"
  by (simp add: cat_msg_def make_msg_cat_def first_msg_def make_msg_def example_msg_def
      copy_field_def)

lemma cat_msg_hooks: "m_callback cat_msg = None" "m_custom_validator cat_msg = None"
  by (simp_all add: cat_msg_def make_msg_cat_def make_msg_def)

lemma example_tuple_84:
  "unmarshal_tuple [0x84, 0x0A] 0 (msg_fields example_msg) =
     Some ([\<lparr>decl = first_f, m_condition = Between 0 2, m_valid = False, m_value = 4\<rparr>,
            \<lparr>decl = second_f, m_condition = Default_range, m_valid = False, m_value = 0\<rparr>],
           False, [On_error_unmarshal 0])"
  by (simp add: example_msg_fields unmarshal_def first_f_raw_84 validate_def)

section \<open>The size guard\<close>

lemma example_msg_n_bits: "msg_n_bits example_msg = 16"
  by (simp add: msg_n_bits_def example_msg_fields)

lemma cat_msg_n_bits: "msg_n_bits cat_msg = 16"
  using example_msg_n_bits by (simp add: msg_n_bits_def cat_msg_fields)

text \<open>
  When the guard's own comparison holds (\<open>len * 8 - bit_offset < n_bits\<close> in \<open>std::size_t\<close>),
  \<open>unmarshal\<close> returns false, reports the bit-size error, sets the aggregate \<open>valid\<close> to
  false and leaves every field, value and validity, as it was.
\<close>

lemma too_short_leaves_fields:
  assumes "len * 8 - bit_offset < msg_n_bits m"
  shows "on_unmarshal m bytes len bit_offset =
           Some (m\<lparr>valid := False\<rparr>, False,
                 [On_unmarshal_start, On_error_bit_size (len * 8 - bit_offset) (msg_n_bits m)])
         \<and> msg_fields (m\<lparr>valid := False\<rparr>) = msg_fields m
         \<and> \<not> valid (m\<lparr>valid := False\<rparr>)"
  using assms by (simp add: on_unmarshal_def)

lemma too_short_leaves_fields_example:
  "(1 :: 64 word) * 8 - 0 < msg_n_bits example_msg
   \<and> on_unmarshal example_msg [0x84] 1 0 =
       Some (example_msg\<lparr>valid := False\<rparr>, False, [On_unmarshal_start, On_error_bit_size 8 16])"
  using too_short_leaves_fields [of 1 0 example_msg "[0x84]"]
  by (simp add: example_msg_n_bits)

text \<open>
  As long as \<open>bit_offset\<close> is at most \<open>8 * len\<close> (and \<open>8 * len\<close> fits \<open>std::size_t\<close>), the
  guard's comparison is the comparison of the integers.
\<close>

lemma too_short_without_wrap:
  fixes len bit_offset :: "64 word"
  assumes fits: "unat len * 8 < 2 ^ 64" and below: "unat bit_offset \<le> unat len * 8"
  shows "len * 8 - bit_offset < msg_n_bits m
           \<longleftrightarrow> unat len * 8 - unat bit_offset < unat (msg_n_bits m)"
proof -
  from fits have "unat len * unat (8 :: 64 word) < 2 ^ LENGTH(64)"
    by simp
  then have "unat (len * 8) = unat len * unat (8 :: 64 word)"
    by (simp only: unat_mult_lem [THEN iffD1])
  then have eq: "unat (len * 8) = unat len * 8"
    by simp
  with below have "bit_offset \<le> len * 8"
    by (simp add: word_le_nat_alt)
  then have "unat (len * 8 - bit_offset) = unat (len * 8) - unat bit_offset"
    by (rule unat_sub)
  with eq show ?thesis
    by (simp add: word_less_nat_alt)
qed

lemma first_f_raw_at_17: "unmarshal_raw first_f [0x80, 0x0A, 0x02, 0xA0, 0x01] 17 = Some 1"
  by code_simp

lemma second_f_raw_at_21: "unmarshal_raw second_f [0x80, 0x0A, 0x02, 0xA0, 0x01] 21 = Some 3328"
  by code_simp

lemma first_f_raw_outside: "unmarshal_raw first_f [0x80, 0x0A] 17 = None"
  by code_simp

text \<open>
  C3 at \<open>len = 2\<close>, \<open>bit_offset = 17\<close> on the example message (16 bits): the difference
  \<open>len * 8 - bit_offset\<close> is \<open>-1\<close>, below \<open>n_bits\<close>, so the claim has the call fail with every
  field untouched. The guard computes the difference in \<open>std::size_t\<close>, where it is
  \<open>2 ^ 64 - 1\<close>, and is not taken: over a buffer of five bytes the call decodes \<open>first_f = 1\<close>
  from bits 17 to 20 and \<open>second_f = 3328\<close> from bits 21 to 32, runs the callback and returns
  true; over a buffer of just the two bytes it reads outside the buffer.
\<close>

theorem negative_difference_decodes:
  "int (unat (2 :: 64 word)) * 8 - int (unat (17 :: 64 word)) < int (unat (msg_n_bits example_msg))
   \<and> on_unmarshal example_msg [0x80, 0x0A, 0x02, 0xA0, 0x01] 2 17 =
       Some (example_msg
               \<lparr>msg_fields :=
                  [\<lparr>decl = first_f, m_condition = Between 0 2, m_valid = True, m_value = 1\<rparr>,
                   \<lparr>decl = second_f, m_condition = Default_range, m_valid = True, m_value = 3328\<rparr>],
                valid := True\<rparr>,
             True,
             [On_unmarshal_start, On_unmarshal_end,
              Callback_run 0
                [\<lparr>decl = first_f, m_condition = Between 0 2, m_valid = True, m_value = 1\<rparr>,
                 \<lparr>decl = second_f, m_condition = Default_range, m_valid = True, m_value = 3328\<rparr>]])
   \<and> on_unmarshal example_msg [0x80, 0x0A] 2 17 = None"
proof -
  have guard: "\<not> (2 :: 64 word) * 8 - 17 < msg_n_bits example_msg"
    by (simp add: example_msg_n_bits)
  have vals: "from_raw UInt16 1 = 1" "from_raw UInt16 3328 = 3328"
    by (simp_all add: from_raw_def cast_to_def)
  have walk: "unmarshal_tuple [0x80, 0x0A, 0x02, 0xA0, 0x01] 17 (msg_fields example_msg) =
     Some ([\<lparr>decl = first_f, m_condition = Between 0 2, m_valid = True, m_value = 1\<rparr>,
            \<lparr>decl = second_f, m_condition = Default_range, m_valid = True, m_value = 3328\<rparr>],
           True, [])"
    by (simp add: example_msg_fields unmarshal_def first_f_raw_at_17 second_f_raw_at_21
        validate_def default_max_second_f type_min_def vals)
  have outside: "unmarshal_tuple [0x80, 0x0A] 17 (msg_fields example_msg) = None"
    by (simp add: example_msg_fields unmarshal_def first_f_raw_outside)
  show ?thesis
    using guard
    by (simp add: on_unmarshal_def on_unmarshal_decode_def walk outside example_msg_hooks
        example_msg_n_bits)
qed

lemma wrapped_difference:
  fixes len bit_offset :: "64 word"
  assumes "unat len * 8 < unat bit_offset"
  shows "unat (len * 8 - bit_offset) = 2 ^ 64 - (unat bit_offset - unat len * 8)"
proof -
  have off: "unat bit_offset < 2 ^ 64"
    using unsigned_less [of bit_offset] by simp
  with assms have "unat len * unat (8 :: 64 word) < 2 ^ LENGTH(64)"
    by simp
  then have "unat (len * 8) = unat len * unat (8 :: 64 word)"
    by (simp only: unat_mult_lem [THEN iffD1])
  then have eq: "unat (len * 8) = unat len * 8"
    by simp
  with assms have "\<not> unat bit_offset \<le> unat (len * 8)"
    by simp
  then have "unat (len * 8 - bit_offset) = unat (len * 8) + 2 ^ 64 - unat bit_offset"
    by (simp add: unat_sub_if_size word_size)
  with eq assms off show ?thesis
    by simp
qed

text \<open>
  C10, as stated, fails when \<open>bit_offset\<close> is within \<open>n_bits\<close> of \<open>2 ^ 64\<close>: with \<open>len = 0\<close> and
  \<open>bit_offset = 2 ^ 64 - 1\<close> the difference wraps to 1, which is below the 16 bits of the
  example message, and the call reports the bit-size error.
\<close>

theorem wrapped_guard_counterexample:
  "unat (0 :: 64 word) * 8 < unat (0xFFFFFFFFFFFFFFFF :: 64 word)
   \<and> on_unmarshal example_msg [] 0 0xFFFFFFFFFFFFFFFF =
       Some (example_msg\<lparr>valid := False\<rparr>, False, [On_unmarshal_start, On_error_bit_size 1 16])"
  by (simp add: on_unmarshal_def example_msg_n_bits)

text \<open>
  C10, amended: when \<open>bit_offset > 8 * len\<close> the difference \<open>len * 8 - bit_offset\<close> wraps to
  \<open>2 ^ 64 - (bit_offset - 8 * len)\<close>; when that is at least \<open>n_bits\<close>, the guard is not taken
  and the call goes on to decode the fields.
\<close>

theorem wrapped_guard_not_taken:
  assumes "unat len * 8 < unat bit_offset"
    and "unat (msg_n_bits m) + (unat bit_offset - unat len * 8) \<le> 2 ^ 64"
  shows "unat (len * 8 - bit_offset) = 2 ^ 64 - (unat bit_offset - unat len * 8)
         \<and> \<not> len * 8 - bit_offset < msg_n_bits m
         \<and> on_unmarshal m bytes len bit_offset = on_unmarshal_decode m bytes bit_offset"
proof -
  have w: "unat (len * 8 - bit_offset) = 2 ^ 64 - (unat bit_offset - unat len * 8)"
    using assms(1) by (rule wrapped_difference)
  with assms(2) have "unat (msg_n_bits m) \<le> unat (len * 8 - bit_offset)"
    by simp
  then have "\<not> len * 8 - bit_offset < msg_n_bits m"
    by (simp add: word_less_nat_alt)
  with w show ?thesis
    by (simp add: on_unmarshal_def)
qed

theorem wrapped_guard_not_taken_witness:
  "unat (2 :: 64 word) * 8 < unat (17 :: 64 word)
   \<and> unat (msg_n_bits example_msg) + (unat (17 :: 64 word) - unat (2 :: 64 word) * 8) \<le> 2 ^ 64
   \<and> \<not> (2 :: 64 word) * 8 - 17 < msg_n_bits example_msg
   \<and> on_unmarshal example_msg [0x80, 0x0A, 0, 0, 0] 2 17
       = on_unmarshal_decode example_msg [0x80, 0x0A, 0, 0, 0] 17"
  using wrapped_guard_not_taken [of 2 17 example_msg "[0x80, 0x0A, 0, 0, 0]"]
  by (simp add: example_msg_n_bits)

section \<open>Decoding a message\<close>

text \<open>
  C4: when the fields before the \<open>k\<close>-th decode validly and the \<open>k\<close>-th field's \<open>unmarshal\<close>
  reports invalid, the call returns false with \<open>valid\<close> false; the \<open>k\<close>-th field is the one its
  own \<open>unmarshal\<close> leaves (marked invalid, holding the decoded value unless a custom condition
  rewrote it), the fields after it are as before the call, the only logger calls are the
  unmarshal error of field \<open>k\<close> and the end of the walk, so the custom validator does not run,
  and \<open>is_valid()\<close> is false afterwards.
\<close>

theorem abort_at_invalid_field:
  assumes guard: "\<not> len * 8 - bit_offset < msg_n_bits m"
    and k: "k < length (msg_fields m)"
    and pre: "unmarshal_tuple bytes bit_offset (take k (msg_fields m)) = Some (pre, True, log)"
    and fk: "unmarshal (msg_fields m ! k) bytes
               (bit_offset + sum_bits (map decl (take k (msg_fields m)))) = Some f'"
    and invalid: "\<not> m_valid f'"
  shows "on_unmarshal m bytes len bit_offset =
           Some (m\<lparr>msg_fields := pre @ f' # drop (Suc k) (msg_fields m), valid := False\<rparr>, False,
                 [On_unmarshal_start, On_error_unmarshal (tid (decl f')), On_unmarshal_end])
         \<and> length pre = k
         \<and> is_valid (m\<lparr>msg_fields := pre @ f' # drop (Suc k) (msg_fields m), valid := False\<rparr>)
             = (False, [On_error_condition (tid (decl f'))])
         \<and> (\<exists>raw. unmarshal_raw (decl (msg_fields m ! k)) bytes
                       (bit_offset + sum_bits (map decl (take k (msg_fields m)))) = Some raw
                \<and> ((\<forall>g. m_condition (msg_fields m ! k) \<noteq> Custom g) \<longrightarrow>
                      m_value f' = from_raw (value_type (decl f')) raw))"
proof -
  let ?fs = "msg_fields m"
  let ?off = "bit_offset + sum_bits (map decl (take k ?fs))"
  let ?m' = "m\<lparr>msg_fields := pre @ f' # drop (Suc k) ?fs, valid := False\<rparr>"
  have split: "?fs = take k ?fs @ (?fs ! k) # drop (Suc k) ?fs"
    using k by (simp add: id_take_nth_drop)
  have tail: "unmarshal_tuple bytes ?off ((?fs ! k) # drop (Suc k) ?fs) =
                Some (f' # drop (Suc k) ?fs, False, [On_error_unmarshal (tid (decl f'))])"
    using fk invalid by simp
  have "unmarshal_tuple bytes bit_offset (take k ?fs @ (?fs ! k) # drop (Suc k) ?fs) =
          Some (pre @ f' # drop (Suc k) ?fs, False, [On_error_unmarshal (tid (decl f'))])"
    unfolding unmarshal_tuple_append using pre tail by simp
  with split have whole: "unmarshal_tuple bytes bit_offset ?fs =
          Some (pre @ f' # drop (Suc k) ?fs, False, [On_error_unmarshal (tid (decl f'))])"
    by simp
  have run: "on_unmarshal m bytes len bit_offset =
          Some (?m', False, [On_unmarshal_start, On_error_unmarshal (tid (decl f')), On_unmarshal_end])"
    using guard whole
    by (simp add: on_unmarshal_def on_unmarshal_decode_def Let_def split: option.splits)
  have len: "length pre = k"
    using unmarshal_tuple_length [OF pre] k by simp
  have "list_all m_valid pre"
    using pre by (rule unmarshal_tuple_True_valid)
  then have "is_valid_tuple (pre @ f' # drop (Suc k) ?fs) =
               (False, [On_error_condition (tid (decl f'))])"
    using invalid by (simp add: is_valid_tuple_append)
  then have valid: "is_valid ?m' = (False, [On_error_condition (tid (decl f'))])"
    by (simp add: is_valid_def split: option.splits)
  from fk obtain raw where raw: "unmarshal_raw (decl (?fs ! k)) bytes ?off = Some raw"
    and f': "f' = validate ((?fs ! k)\<lparr>m_value := from_raw (value_type (decl (?fs ! k))) raw\<rparr>)"
    by (auto simp: unmarshal_def split: option.splits)
  have stored: "(\<forall>g. m_condition (?fs ! k) \<noteq> Custom g) \<longrightarrow>
                  m_value f' = from_raw (value_type (decl f')) raw"
    using invalid
      validate_stores [of "(?fs ! k)\<lparr>m_value := from_raw (value_type (decl (?fs ! k))) raw\<rparr>"]
    unfolding f' by (simp add: decl_validate)
  from run len valid raw stored show ?thesis
    by simp
qed

theorem abort_at_invalid_field_witness:
  "on_unmarshal example_msg [0x84, 0x0A] 2 0 =
     Some (example_msg
             \<lparr>msg_fields :=
                [\<lparr>decl = first_f, m_condition = Between 0 2, m_valid = False, m_value = 4\<rparr>,
                 \<lparr>decl = second_f, m_condition = Default_range, m_valid = False, m_value = 0\<rparr>],
              valid := False\<rparr>,
           False, [On_unmarshal_start, On_error_unmarshal 0, On_unmarshal_end])
   \<and> is_valid (example_msg
             \<lparr>msg_fields :=
                [\<lparr>decl = first_f, m_condition = Between 0 2, m_valid = False, m_value = 4\<rparr>,
                 \<lparr>decl = second_f, m_condition = Default_range, m_valid = False, m_value = 0\<rparr>],
              valid := False\<rparr>)
       = (False, [On_error_condition 0])"
proof -
  have guard: "\<not> (2 :: 64 word) * 8 - 0 < msg_n_bits example_msg"
    by (simp add: example_msg_n_bits)
  have k: "0 < length (msg_fields example_msg)"
    by (simp add: example_msg_fields)
  have pre: "unmarshal_tuple [0x84, 0x0A] 0 (take 0 (msg_fields example_msg)) = Some ([], True, [])"
    by simp
  have fk: "unmarshal (msg_fields example_msg ! 0) [0x84, 0x0A]
              (0 + sum_bits (map decl (take 0 (msg_fields example_msg)))) =
            Some \<lparr>decl = first_f, m_condition = Between 0 2, m_valid = False, m_value = 4\<rparr>"
    by (simp add: example_msg_fields unmarshal_def first_f_raw_84 validate_def)
  have inv: "\<not> m_valid \<lparr>decl = first_f, m_condition = Between 0 2, m_valid = False, m_value = 4\<rparr>"
    by simp
  show ?thesis
    using abort_at_invalid_field [OF guard k pre fk inv]
    by (simp add: example_msg_fields)
qed

text \<open>
  C5: when every field decodes validly, a custom validator that rejects makes the call
  return false without a call of the callback; a validator that accepts, or none, makes it
  return true, and the callback, when there is one, is called once, last, after the
  validator, on the decoded fields. No call of \<open>on_unmarshal\<close> calls the callback otherwise.
\<close>

theorem callback_after_validator:
  assumes guard: "\<not> len * 8 - bit_offset < msg_n_bits m"
    and decoded: "unmarshal_tuple bytes bit_offset (msg_fields m) = Some (fs, True, log)"
  shows "(\<forall>cv. m_custom_validator m = Some cv \<and> \<not> cv fs \<longrightarrow>
            on_unmarshal m bytes len bit_offset =
              Some (m\<lparr>msg_fields := fs, valid := False\<rparr>, False,
                    [On_unmarshal_start, On_unmarshal_end, Custom_validator_run fs]))
       \<and> (\<forall>cv. m_custom_validator m = Some cv \<and> cv fs \<longrightarrow>
            on_unmarshal m bytes len bit_offset =
              Some (m\<lparr>msg_fields := fs, valid := True\<rparr>, True,
                    [On_unmarshal_start, On_unmarshal_end, Custom_validator_run fs]
                    @ (case m_callback m of Some cb \<Rightarrow> [Callback_run cb fs] | None \<Rightarrow> [])))
       \<and> (m_custom_validator m = None \<longrightarrow>
            on_unmarshal m bytes len bit_offset =
              Some (m\<lparr>msg_fields := fs, valid := True\<rparr>, True,
                    [On_unmarshal_start, On_unmarshal_end]
                    @ (case m_callback m of Some cb \<Rightarrow> [Callback_run cb fs] | None \<Rightarrow> [])))
       \<and> (\<forall>m0 bytes0 len0 off0 m1 r events cb fs0.
            on_unmarshal m0 bytes0 len0 off0 = Some (m1, r, events)
            \<and> Callback_run cb fs0 \<in> set events \<longrightarrow>
              r \<and> m_callback m0 = Some cb
              \<and> \<not> len0 * 8 - off0 < msg_n_bits m0
              \<and> unmarshal_tuple bytes0 off0 (msg_fields m0) = Some (fs0, True, [])
              \<and> (\<forall>cv. m_custom_validator m0 = Some cv \<longrightarrow> cv fs0))"
proof -
  have log: "log = []"
    using decoded by (rule unmarshal_tuple_True_log)
  have a: "\<forall>cv. m_custom_validator m = Some cv \<and> \<not> cv fs \<longrightarrow>
            on_unmarshal m bytes len bit_offset =
              Some (m\<lparr>msg_fields := fs, valid := False\<rparr>, False,
                    [On_unmarshal_start, On_unmarshal_end, Custom_validator_run fs])"
    using guard decoded log
    by (simp add: on_unmarshal_def on_unmarshal_decode_def Let_def split: option.splits)
  have b: "\<forall>cv. m_custom_validator m = Some cv \<and> cv fs \<longrightarrow>
            on_unmarshal m bytes len bit_offset =
              Some (m\<lparr>msg_fields := fs, valid := True\<rparr>, True,
                    [On_unmarshal_start, On_unmarshal_end, Custom_validator_run fs]
                    @ (case m_callback m of Some cb \<Rightarrow> [Callback_run cb fs] | None \<Rightarrow> []))"
    using guard decoded log
    by (simp add: on_unmarshal_def on_unmarshal_decode_def Let_def split: option.splits)
  have c: "m_custom_validator m = None \<longrightarrow>
            on_unmarshal m bytes len bit_offset =
              Some (m\<lparr>msg_fields := fs, valid := True\<rparr>, True,
                    [On_unmarshal_start, On_unmarshal_end]
                    @ (case m_callback m of Some cb \<Rightarrow> [Callback_run cb fs] | None \<Rightarrow> []))"
    using guard decoded log
    by (simp add: on_unmarshal_def on_unmarshal_decode_def Let_def split: option.splits)
  have d: "\<forall>m0 bytes0 len0 off0 m1 r events cb fs0.
            on_unmarshal m0 bytes0 len0 off0 = Some (m1, r, events)
            \<and> Callback_run cb fs0 \<in> set events \<longrightarrow>
              r \<and> m_callback m0 = Some cb
              \<and> \<not> len0 * 8 - off0 < msg_n_bits m0
              \<and> unmarshal_tuple bytes0 off0 (msg_fields m0) = Some (fs0, True, [])
              \<and> (\<forall>cv. m_custom_validator m0 = Some cv \<longrightarrow> cv fs0)"
  proof (intro allI impI, elim conjE)
    fix m0 bytes0 len0 off0 m1 r events cb fs0
    assume run: "on_unmarshal m0 bytes0 len0 off0 = Some (m1, r, events)"
      and fired: "Callback_run cb fs0 \<in> set events"
    have g: "\<not> len0 * 8 - off0 < msg_n_bits m0"
      using run fired by (auto simp: on_unmarshal_def split: if_splits)
    with run have dec: "on_unmarshal_decode m0 bytes0 off0 = Some (m1, r, events)"
      by (simp add: on_unmarshal_def)
    then obtain fs1 ok log1 where
      t: "unmarshal_tuple bytes0 off0 (msg_fields m0) = Some (fs1, ok, log1)"
      by (auto simp: on_unmarshal_decode_def split: option.splits)
    have nocb: "Callback_run cb fs0 \<notin> set log1"
      using unmarshal_tuple_log [OF t] by auto
    have ok: "ok \<Longrightarrow> log1 = []"
      using t by (auto dest: unmarshal_tuple_True_log)
    show "r \<and> m_callback m0 = Some cb
              \<and> \<not> len0 * 8 - off0 < msg_n_bits m0
              \<and> unmarshal_tuple bytes0 off0 (msg_fields m0) = Some (fs0, True, [])
              \<and> (\<forall>cv. m_custom_validator m0 = Some cv \<longrightarrow> cv fs0)"
      using dec t fired nocb g ok
      by (auto simp: on_unmarshal_decode_def Let_def split: option.splits if_splits)
  qed
  from a b c d show ?thesis by blast
qed

theorem callback_after_validator_witness:
  "\<not> (2 :: 64 word) * 8 - 0 < msg_n_bits (fst (set_custom_validator example_msg (Some first_below_second)))
   \<and> on_unmarshal (fst (set_custom_validator example_msg (Some first_below_second))) [0x80, 0x0A] 2 0 =
       Some (fst (set_custom_validator example_msg (Some first_below_second))
               \<lparr>msg_fields :=
                  [\<lparr>decl = first_f, m_condition = Between 0 2, m_valid = True, m_value = 0\<rparr>,
                   \<lparr>decl = second_f, m_condition = Default_range, m_valid = True, m_value = 168\<rparr>],
                valid := True\<rparr>,
             True,
             [On_unmarshal_start, On_unmarshal_end,
              Custom_validator_run
                [\<lparr>decl = first_f, m_condition = Between 0 2, m_valid = True, m_value = 0\<rparr>,
                 \<lparr>decl = second_f, m_condition = Default_range, m_valid = True, m_value = 168\<rparr>],
              Callback_run 0
                [\<lparr>decl = first_f, m_condition = Between 0 2, m_valid = True, m_value = 0\<rparr>,
                 \<lparr>decl = second_f, m_condition = Default_range, m_valid = True, m_value = 168\<rparr>]])"
proof -
  let ?m = "fst (set_custom_validator example_msg (Some first_below_second))"
  have fs: "msg_fields ?m = msg_fields example_msg"
    by (simp add: set_custom_validator_def)
  have guard: "\<not> (2 :: 64 word) * 8 - 0 < msg_n_bits ?m"
    using example_msg_n_bits by (simp add: msg_n_bits_def fs)
  have decoded: "unmarshal_tuple [0x80, 0x0A] 0 (msg_fields ?m) =
     Some ([\<lparr>decl = first_f, m_condition = Between 0 2, m_valid = True, m_value = 0\<rparr>,
            \<lparr>decl = second_f, m_condition = Default_range, m_valid = True, m_value = 168\<rparr>],
           True, [])"
    unfolding fs by (rule example_tuple_80)
  have hooks: "m_custom_validator ?m = Some first_below_second" "m_callback ?m = Some 0"
    by (simp_all add: set_custom_validator_def example_msg_hooks)
  show ?thesis
    using callback_after_validator [OF guard decoded] guard hooks
    by simp
qed

text \<open>
  C7, as stated, fails on the first buffer of the example: \<open>first_f = 4\<close> violates
  \<open>between(0, 2)\<close>, the walk stops there, and \<open>second_f\<close> keeps the value 0 it had, although
  bits 4 to 15 of the buffer hold 168.
\<close>

theorem second_field_not_decoded_counterexample:
  "on_unmarshal example_msg [0x84, 0x0A] 2 0 =
     Some (example_msg
             \<lparr>msg_fields :=
                [\<lparr>decl = first_f, m_condition = Between 0 2, m_valid = False, m_value = 4\<rparr>,
                 \<lparr>decl = second_f, m_condition = Default_range, m_valid = False, m_value = 0\<rparr>],
              valid := False\<rparr>,
           False, [On_unmarshal_start, On_error_unmarshal 0, On_unmarshal_end])
   \<and> unmarshal_raw second_f [0x84, 0x0A] 4 = Some 168"
  by (simp add: on_unmarshal_def on_unmarshal_decode_def example_msg_n_bits example_tuple_84
      example_msg_hooks second_f_raw_84)

text \<open>
  C7, amended: the fields are decoded in declaration order, field \<open>j\<close> at \<open>bit_offset\<close> plus
  the widths of the fields before it, with no re-alignment, as long as the fields before it
  were valid; a field after an invalid one is left as it was. On \<open>{0x84, 0x0A}\<close> the example
  message gets \<open>first_f = 4\<close>, the low nibble of the first byte, stops there with \<open>second_f\<close>
  not decoded, and reports invalid; on \<open>{0x80, 0x0A}\<close> it gets \<open>first_f = 0\<close> and
  \<open>second_f = 168\<close>, which is bits 4 to 15, and reports valid.
\<close>

theorem fields_in_declaration_order:
  "(unmarshal_tuple bytes bit_offset fs = Some (fs', ok, log) \<and> j < length fs \<longrightarrow>
      (if \<forall>i<j. m_valid (fs' ! i)
       then unmarshal (fs ! j) bytes (bit_offset + sum_bits (map decl (take j fs))) = Some (fs' ! j)
       else fs' ! j = fs ! j))
   \<and> on_unmarshal example_msg [0x84, 0x0A] 2 0 =
       Some (example_msg
               \<lparr>msg_fields :=
                  [\<lparr>decl = first_f, m_condition = Between 0 2, m_valid = False, m_value = 4\<rparr>,
                   \<lparr>decl = second_f, m_condition = Default_range, m_valid = False, m_value = 0\<rparr>],
                valid := False\<rparr>,
             False, [On_unmarshal_start, On_error_unmarshal 0, On_unmarshal_end])
   \<and> is_valid (example_msg
               \<lparr>msg_fields :=
                  [\<lparr>decl = first_f, m_condition = Between 0 2, m_valid = False, m_value = 4\<rparr>,
                   \<lparr>decl = second_f, m_condition = Default_range, m_valid = False, m_value = 0\<rparr>],
                valid := False\<rparr>) = (False, [On_error_condition 0])
   \<and> unmarshal_raw first_f [0x84, 0x0A] 0 = Some (0x84 AND 0xF)
   \<and> on_unmarshal example_msg [0x80, 0x0A] 2 0 =
       Some (example_msg
               \<lparr>msg_fields :=
                  [\<lparr>decl = first_f, m_condition = Between 0 2, m_valid = True, m_value = 0\<rparr>,
                   \<lparr>decl = second_f, m_condition = Default_range, m_valid = True, m_value = 168\<rparr>],
                valid := True\<rparr>,
             True,
             [On_unmarshal_start, On_unmarshal_end,
              Callback_run 0
                [\<lparr>decl = first_f, m_condition = Between 0 2, m_valid = True, m_value = 0\<rparr>,
                 \<lparr>decl = second_f, m_condition = Default_range, m_valid = True, m_value = 168\<rparr>]])
   \<and> is_valid (example_msg
               \<lparr>msg_fields :=
                  [\<lparr>decl = first_f, m_condition = Between 0 2, m_valid = True, m_value = 0\<rparr>,
                   \<lparr>decl = second_f, m_condition = Default_range, m_valid = True, m_value = 168\<rparr>],
                valid := True\<rparr>) = (True, [])
   \<and> unmarshal_raw second_f [0x80, 0x0A] 4 = Some (drop_bit 4 0x0A80)"
proof -
  have general: "unmarshal_tuple bytes bit_offset fs = Some (fs', ok, log) \<and> j < length fs \<longrightarrow>
      (if \<forall>i<j. m_valid (fs' ! i)
       then unmarshal (fs ! j) bytes (bit_offset + sum_bits (map decl (take j fs))) = Some (fs' ! j)
       else fs' ! j = fs ! j)"
    using unmarshal_tuple_in_order [of bytes bit_offset fs fs' ok log j] by blast
  have a: "on_unmarshal example_msg [0x84, 0x0A] 2 0 =
       Some (example_msg
               \<lparr>msg_fields :=
                  [\<lparr>decl = first_f, m_condition = Between 0 2, m_valid = False, m_value = 4\<rparr>,
                   \<lparr>decl = second_f, m_condition = Default_range, m_valid = False, m_value = 0\<rparr>],
                valid := False\<rparr>,
             False, [On_unmarshal_start, On_error_unmarshal 0, On_unmarshal_end])"
    by (simp add: on_unmarshal_def on_unmarshal_decode_def example_msg_n_bits example_tuple_84
        example_msg_hooks)
  have a': "is_valid (example_msg
               \<lparr>msg_fields :=
                  [\<lparr>decl = first_f, m_condition = Between 0 2, m_valid = False, m_value = 4\<rparr>,
                   \<lparr>decl = second_f, m_condition = Default_range, m_valid = False, m_value = 0\<rparr>],
                valid := False\<rparr>) = (False, [On_error_condition 0])"
    by (simp add: is_valid_def example_msg_hooks)
  have b: "on_unmarshal example_msg [0x80, 0x0A] 2 0 =
       Some (example_msg
               \<lparr>msg_fields :=
                  [\<lparr>decl = first_f, m_condition = Between 0 2, m_valid = True, m_value = 0\<rparr>,
                   \<lparr>decl = second_f, m_condition = Default_range, m_valid = True, m_value = 168\<rparr>],
                valid := True\<rparr>,
             True,
             [On_unmarshal_start, On_unmarshal_end,
              Callback_run 0
                [\<lparr>decl = first_f, m_condition = Between 0 2, m_valid = True, m_value = 0\<rparr>,
                 \<lparr>decl = second_f, m_condition = Default_range, m_valid = True, m_value = 168\<rparr>]])"
    by (simp add: on_unmarshal_def on_unmarshal_decode_def example_msg_n_bits example_tuple_80
        example_msg_hooks)
  have b': "is_valid (example_msg
               \<lparr>msg_fields :=
                  [\<lparr>decl = first_f, m_condition = Between 0 2, m_valid = True, m_value = 0\<rparr>,
                   \<lparr>decl = second_f, m_condition = Default_range, m_valid = True, m_value = 168\<rparr>],
                valid := True\<rparr>) = (True, [])"
    by (simp add: is_valid_def example_msg_hooks)
  have c: "unmarshal_raw first_f [0x84, 0x0A] 0 = Some (0x84 AND 0xF)"
    by (simp add: first_f_raw_84)
  have d: "unmarshal_raw second_f [0x80, 0x0A] 4 = Some (drop_bit 4 0x0A80)"
    by (simp add: second_f_raw_80 drop_bit_eq_div)
  from general a a' b b' c d show ?thesis
    by (intro conjI)
qed

theorem fields_in_declaration_order_witness:
  "unmarshal_tuple [0x80, 0x0A] 0 (msg_fields example_msg) =
     Some ([\<lparr>decl = first_f, m_condition = Between 0 2, m_valid = True, m_value = 0\<rparr>,
            \<lparr>decl = second_f, m_condition = Default_range, m_valid = True, m_value = 168\<rparr>],
           True, [])
   \<and> (1 :: nat) < length (msg_fields example_msg)
   \<and> unmarshal (msg_fields example_msg ! 1) [0x80, 0x0A] 4 =
       Some \<lparr>decl = second_f, m_condition = Default_range, m_valid = True, m_value = 168\<rparr>"
proof -
  have len: "(1 :: nat) < length (msg_fields example_msg)"
    by (simp add: example_msg_fields)
  have "4 = (0 :: 64 word) + sum_bits (map decl (take 1 (msg_fields example_msg)))"
    by (simp add: example_msg_fields)
  then show ?thesis
    using fields_in_declaration_order
      [of "[0x80, 0x0A]" 0 "msg_fields example_msg"
          "[\<lparr>decl = first_f, m_condition = Between 0 2, m_valid = True, m_value = 0\<rparr>,
            \<lparr>decl = second_f, m_condition = Default_range, m_valid = True, m_value = 168\<rparr>]"
          True "[]" 1]
      example_tuple_80 len
    by simp
qed

section \<open>Concatenation\<close>

text \<open>
  C8, as stated, fails when a field is invalid: in the message built from \<open>first_f\<close> with
  \<open>between(0, 2)\<close> and extended by \<open>second_f\<close>, the buffer \<open>{0x84, 0x0A}\<close> stops the walk at
  \<open>first_f\<close> and \<open>second_f\<close> keeps 0, while \<open>second_f\<close> decoded on its own at bit 4 is 168.
\<close>

theorem cat_counterexample:
  "on_unmarshal cat_msg [0x84, 0x0A] 2 0 =
     Some (cat_msg
             \<lparr>msg_fields :=
                [\<lparr>decl = first_f, m_condition = Between 0 2, m_valid = False, m_value = 4\<rparr>,
                 \<lparr>decl = second_f, m_condition = Default_range, m_valid = False, m_value = 0\<rparr>],
              valid := False\<rparr>,
           False, [On_unmarshal_start, On_error_unmarshal 0, On_unmarshal_end])
   \<and> unmarshal (any second_f) [0x84, 0x0A] (0 + msg_n_bits first_msg) =
       Some \<lparr>decl = second_f, m_condition = Default_range, m_valid = True, m_value = 168\<rparr>"
  by (simp add: on_unmarshal_def on_unmarshal_decode_def cat_msg_n_bits cat_msg_fields
      example_tuple_84 cat_msg_hooks first_msg_n_bits any_second_f_84)

text \<open>
  C8, amended: the message \<open>C\<close> built by \<open>make_msg_cat\<close> from \<open>A\<close> and the fields \<open>D\<close> has
  \<open>A.n_fields + count(D)\<close> fields; and whenever unmarshalling \<open>C\<close> returns true (every field
  decodes validly; \<open>A.n_bits\<close> not above \<open>C.n_bits\<close>, that is, the sum of the widths does not
  wrap), unmarshalling \<open>A\<close> over the same buffer gives the first \<open>A.n_fields\<close> fields of \<open>C\<close>,
  and each field of \<open>D\<close> decoded on its own at \<open>bit_offset + A.n_bits\<close> plus the widths of the
  fields of \<open>D\<close> before it is the corresponding field of \<open>C\<close>.
\<close>

theorem cat_unmarshal:
  "n_fields (make_msg_cat cb A D) = n_fields A + length D
   \<and> (msg_n_bits A \<le> msg_n_bits (make_msg_cat cb A D)
        \<and> on_unmarshal (make_msg_cat cb A D) bytes len bit_offset = Some (C', True, events) \<longrightarrow>
      (\<exists>A' r ev. on_unmarshal A bytes len bit_offset = Some (A', r, ev)
                 \<and> msg_fields A' = take (n_fields A) (msg_fields C'))
      \<and> (\<forall>j<length D.
            unmarshal (D ! j) bytes (bit_offset + msg_n_bits A + sum_bits (map decl (take j D)))
              = Some (msg_fields C' ! (n_fields A + j))))"
proof (intro conjI impI; (elim conjE)?)
  show "n_fields (make_msg_cat cb A D) = n_fields A + length D"
    by (simp add: n_fields_def make_msg_cat_def make_msg_def)
next
  let ?C = "make_msg_cat cb A D"
  assume le: "msg_n_bits A \<le> msg_n_bits ?C"
    and run: "on_unmarshal ?C bytes len bit_offset = Some (C', True, events)"
  have fsC: "msg_fields ?C = map copy_field (msg_fields A @ D)"
    by (simp add: make_msg_cat_def make_msg_def)
  have noval: "m_custom_validator ?C = None"
    by (simp add: make_msg_cat_def make_msg_def)
  have guardC: "\<not> len * 8 - bit_offset < msg_n_bits ?C"
    using run by (auto simp: on_unmarshal_def split: if_splits)
  with le have guardA: "\<not> len * 8 - bit_offset < msg_n_bits A"
    by simp
  from run guardC have dec: "on_unmarshal_decode ?C bytes bit_offset = Some (C', True, events)"
    by (simp add: on_unmarshal_def)
  then obtain log where
    "unmarshal_tuple bytes bit_offset (msg_fields ?C) = Some (msg_fields C', True, log)"
    using noval
    by (auto simp: on_unmarshal_decode_def Let_def split: option.splits if_splits)
  then have whole:
    "unmarshal_tuple bytes bit_offset (msg_fields A @ D) = Some (msg_fields C', True, log)"
    unfolding fsC by (rule unmarshal_tuple_copies)
  then obtain a' d' la ld where
    a': "unmarshal_tuple bytes bit_offset (msg_fields A) = Some (a', True, la)"
    and d': "unmarshal_tuple bytes (bit_offset + sum_bits (map decl (msg_fields A))) D
               = Some (d', True, ld)"
    and C': "msg_fields C' = a' @ d'"
    by (auto simp: unmarshal_tuple_append split: option.splits if_splits)
  have la: "length a' = n_fields A"
    using unmarshal_tuple_length [OF a'] by (simp add: n_fields_def)
  have "\<exists>A' r ev. on_unmarshal A bytes len bit_offset = Some (A', r, ev) \<and> msg_fields A' = a'"
    using guardA a'
    by (auto simp: on_unmarshal_def on_unmarshal_decode_def Let_def split: option.splits)
  then show "\<exists>A' r ev. on_unmarshal A bytes len bit_offset = Some (A', r, ev)
                 \<and> msg_fields A' = take (n_fields A) (msg_fields C')"
    using la C' by simp
  show "\<forall>j<length D.
            unmarshal (D ! j) bytes (bit_offset + msg_n_bits A + sum_bits (map decl (take j D)))
              = Some (msg_fields C' ! (n_fields A + j))"
  proof (intro allI impI)
    fix j assume j: "j < length D"
    have valid: "list_all m_valid d'"
      using d' by (rule unmarshal_tuple_True_valid)
    have "length d' = length D"
      using d' by (rule unmarshal_tuple_length)
    with valid j have "\<forall>i<j. m_valid (d' ! i)"
      by (simp add: list_all_length)
    with unmarshal_tuple_in_order [OF d' j]
    have "unmarshal (D ! j) bytes
            (bit_offset + sum_bits (map decl (msg_fields A)) + sum_bits (map decl (take j D)))
          = Some (d' ! j)"
      by simp
    then show "unmarshal (D ! j) bytes (bit_offset + msg_n_bits A + sum_bits (map decl (take j D)))
              = Some (msg_fields C' ! (n_fields A + j))"
      using la C' by (simp add: msg_n_bits_def nth_append)
  qed
qed

theorem cat_unmarshal_witness:
  "msg_n_bits first_msg \<le> msg_n_bits (make_msg_cat None first_msg [any second_f])
   \<and> on_unmarshal (make_msg_cat None first_msg [any second_f]) [0x80, 0x0A] 2 0 =
       Some (cat_msg
               \<lparr>msg_fields :=
                  [\<lparr>decl = first_f, m_condition = Between 0 2, m_valid = True, m_value = 0\<rparr>,
                   \<lparr>decl = second_f, m_condition = Default_range, m_valid = True, m_value = 168\<rparr>],
                valid := True\<rparr>,
             True, [On_unmarshal_start, On_unmarshal_end])
   \<and> n_fields (make_msg_cat None first_msg [any second_f]) = n_fields first_msg + 1
   \<and> unmarshal (any second_f) [0x80, 0x0A] (0 + msg_n_bits first_msg) =
       Some \<lparr>decl = second_f, m_condition = Default_range, m_valid = True, m_value = 168\<rparr>"
proof -
  have le: "msg_n_bits first_msg \<le> msg_n_bits (make_msg_cat None first_msg [any second_f])"
    using cat_msg_n_bits by (simp add: first_msg_n_bits cat_msg_def)
  have run: "on_unmarshal (make_msg_cat None first_msg [any second_f]) [0x80, 0x0A] 2 0 =
       Some (cat_msg
               \<lparr>msg_fields :=
                  [\<lparr>decl = first_f, m_condition = Between 0 2, m_valid = True, m_value = 0\<rparr>,
                   \<lparr>decl = second_f, m_condition = Default_range, m_valid = True, m_value = 168\<rparr>],
                valid := True\<rparr>,
             True, [On_unmarshal_start, On_unmarshal_end])"
    unfolding cat_msg_def [symmetric]
    by (simp add: on_unmarshal_def on_unmarshal_decode_def cat_msg_n_bits cat_msg_fields
        example_tuple_80 cat_msg_hooks)
  have n: "n_fields first_msg = 1"
    by (simp add: n_fields_def first_msg_fields)
  show ?thesis
    using cat_unmarshal [of None first_msg "[any second_f]" "[0x80, 0x0A]" 2 0
        "cat_msg
               \<lparr>msg_fields :=
                  [\<lparr>decl = first_f, m_condition = Between 0 2, m_valid = True, m_value = 0\<rparr>,
                   \<lparr>decl = second_f, m_condition = Default_range, m_valid = True, m_value = 168\<rparr>],
                valid := True\<rparr>"
        "[On_unmarshal_start, On_unmarshal_end]"]
      le run n
    by simp
qed

section \<open>The bit loops\<close>

lemma unat_succ_below:
  fixes i stop :: "64 word"
  assumes "i < stop"
  shows "unat (i + 1) = unat i + 1"
proof -
  from assms have "unat i < unat stop"
    by (simp add: word_less_nat_alt)
  moreover have "unat stop < 2 ^ 64"
    using unsigned_less [of stop] by simp
  ultimately have "unat i + 1 < 2 ^ 64"
    by linarith
  then show ?thesis
    by (simp add: unat_word_ariths)
qed

lemma byte_at_div8:
  fixes i :: "64 word"
  shows "byte_at bytes (i div 8) =
           (if unat i div 8 < length bytes then Some (bytes ! (unat i div 8)) else None)"
  by (simp add: byte_at_def unat_div)

lemma input_bit:
  fixes b :: "8 word"
  shows "bit (push_bit s (drop_bit t (ucast b :: 32 word) AND 1)) m
           \<longleftrightarrow> m = s \<and> m < 32 \<and> t < 8 \<and> bit b t"
  by (auto simp: bit_simps dest: bit_imp_le_length)

lemma lsb_loop_bits:
  fixes i stop bit_offset :: "64 word"
  assumes "unat i + k = unat stop" and "unat bit_offset \<le> unat i"
    and "lsb_loop bytes bit_offset stop i raw = Some r"
  shows "bit r m \<longleftrightarrow>
           bit raw m \<or>
           (m < 32 \<and> unat i \<le> unat bit_offset + m \<and> unat bit_offset + m < unat stop
            \<and> bit (bytes ! ((unat bit_offset + m) div 8)) ((unat bit_offset + m) mod 8))"
  using assms
proof (induction k arbitrary: i raw)
  case 0
  then have "\<not> i < stop"
    by (simp add: word_less_nat_alt)
  with 0 show ?case
    by (subst (asm) lsb_loop.simps) auto
next
  case (Suc k)
  then have less: "i < stop"
    by (simp add: word_less_nat_alt)
  then have next_i: "unat (i + 1) = unat i + 1"
    by (rule unat_succ_below)
  from Suc.prems(3) less obtain b where
    b: "unat i div 8 < length bytes" "b = bytes ! (unat i div 8)"
    and rec: "lsb_loop bytes bit_offset stop (i + 1)
               (raw OR push_bit (unat (i - bit_offset)) (drop_bit (unat (i mod 8)) (ucast b) AND 1)) = Some r"
    by (subst (asm) lsb_loop.simps) (auto simp: byte_at_div8 split: if_splits)
  have sub: "unat (i - bit_offset) = unat i - unat bit_offset"
    using Suc.prems(2) by (simp add: unat_sub word_le_nat_alt)
  have md: "unat (i mod 8) = unat i mod 8"
    by (simp add: unat_mod)
  have "bit r m \<longleftrightarrow>
          bit (raw OR push_bit (unat (i - bit_offset)) (drop_bit (unat (i mod 8)) (ucast b) AND 1)) m \<or>
          (m < 32 \<and> unat (i + 1) \<le> unat bit_offset + m \<and> unat bit_offset + m < unat stop
            \<and> bit (bytes ! ((unat bit_offset + m) div 8)) ((unat bit_offset + m) mod 8))"
    using Suc.prems(1,2) next_i by (intro Suc.IH [OF _ _ rec]) simp_all
  also have "\<dots> \<longleftrightarrow> bit raw m \<or>
           (m < 32 \<and> unat i \<le> unat bit_offset + m \<and> unat bit_offset + m < unat stop
            \<and> bit (bytes ! ((unat bit_offset + m) div 8)) ((unat bit_offset + m) mod 8))"
  proof -
    have *: "unat i \<le> unat bit_offset + m \<longleftrightarrow>
               m = unat i - unat bit_offset \<or> unat i + 1 \<le> unat bit_offset + m"
      using Suc.prems(2) by auto
    have **: "m = unat i - unat bit_offset \<Longrightarrow> unat bit_offset + m = unat i"
      using Suc.prems(2) by simp
    have lt: "unat i < unat stop"
      using less by (simp add: word_less_nat_alt)
    show ?thesis
      unfolding bit_or_iff input_bit sub md next_i * b(2)
      using ** lt by auto
  qed
  finally show ?case .
qed

lemma lsb_loop_Some:
  fixes i stop bit_offset :: "64 word"
  assumes "unat i + k = unat stop" and "unat stop \<le> 8 * length bytes"
  shows "\<exists>r. lsb_loop bytes bit_offset stop i raw = Some r"
  using assms
proof (induction k arbitrary: i raw)
  case 0
  then have "\<not> i < stop"
    by (simp add: word_less_nat_alt)
  then show ?case
    by (subst lsb_loop.simps) simp
next
  case (Suc k)
  then have less: "i < stop"
    by (simp add: word_less_nat_alt)
  then have next_i: "unat (i + 1) = unat i + 1"
    by (rule unat_succ_below)
  from Suc.prems have inb: "unat i div 8 < length bytes"
    by simp
  have "\<exists>r. lsb_loop bytes bit_offset stop (i + 1)
          (raw OR push_bit (unat (i - bit_offset))
             (drop_bit (unat (i mod 8)) (ucast (bytes ! (unat i div 8))) AND 1)) = Some r"
    using Suc.prems next_i by (intro Suc.IH) simp_all
  with less inb show ?case
    by (subst lsb_loop.simps) (simp add: byte_at_div8)
qed

lemma input_bit_msb:
  fixes b :: "8 word" and i :: "64 word"
  shows "drop_bit (unat (7 - i mod 8)) (ucast b :: 32 word) AND 1
           = (if bit b (7 - unat i mod 8) then 1 else 0)"
proof -
  have "i mod 8 \<le> 7"
    by (simp add: word_le_nat_alt unat_mod) 
  then have "unat (7 - i mod 8) = 7 - unat i mod 8"
    by (simp add: unat_sub unat_mod)
  moreover have "drop_bit t (ucast b :: 32 word) AND 1 = (if bit b t then 1 else 0)" for t
  proof -
    have "drop_bit t (ucast b :: 32 word) AND 1 = of_bool (bit (ucast b :: 32 word) t)"
      by (simp add: and_one_eq mod_2_eq_odd bit_iff_odd_drop_bit)
    moreover have "bit (ucast b :: 32 word) t \<longleftrightarrow> bit b t"
      by (auto simp: bit_simps dest: bit_imp_le_length)
    ultimately show ?thesis
      by simp
  qed
  ultimately show ?thesis
    by simp
qed

lemma msb_loop_foldl:
  fixes i stop :: "64 word"
  assumes "unat i + k = unat stop" and "msb_loop bytes stop i raw = Some r"
  shows "r = foldl (msb_step bytes) raw [unat i..<unat stop]"
  using assms
proof (induction k arbitrary: i raw)
  case 0
  then have "\<not> i < stop"
    by (simp add: word_less_nat_alt)
  with 0 show ?case
    by (subst (asm) msb_loop.simps) simp
next
  case (Suc k)
  then have less: "i < stop"
    by (simp add: word_less_nat_alt)
  then have next_i: "unat (i + 1) = unat i + 1"
    by (rule unat_succ_below)
  from Suc.prems(2) less have
    rec: "msb_loop bytes stop (i + 1) (msb_step bytes raw (unat i)) = Some r"
    by (subst (asm) msb_loop.simps)
      (auto simp: byte_at_div8 input_bit_msb msb_step_def split: if_splits)
  have "r = foldl (msb_step bytes) (msb_step bytes raw (unat i)) [unat (i + 1)..<unat stop]"
    using Suc.prems(1) next_i by (intro Suc.IH [OF _ rec]) simp
  moreover have "[unat i..<unat stop] = unat i # [unat (i + 1)..<unat stop]"
    using Suc.prems(1) next_i by (simp add: upt_conv_Cons)
  ultimately show ?case
    by simp
qed

lemma msb_loop_Some:
  fixes i stop :: "64 word"
  assumes "unat i + k = unat stop" and "unat stop \<le> 8 * length bytes"
  shows "\<exists>r. msb_loop bytes stop i raw = Some r"
  using assms
proof (induction k arbitrary: i raw)
  case 0
  then have "\<not> i < stop"
    by (simp add: word_less_nat_alt)
  then show ?case
    by (subst msb_loop.simps) simp
next
  case (Suc k)
  then have less: "i < stop"
    by (simp add: word_less_nat_alt)
  then have next_i: "unat (i + 1) = unat i + 1"
    by (rule unat_succ_below)
  from Suc.prems have inb: "unat i div 8 < length bytes"
    by simp
  have "\<exists>r. msb_loop bytes stop (i + 1)
          (push_bit 1 raw OR (drop_bit (unat (7 - i mod 8)) (ucast (bytes ! (unat i div 8))) AND 1))
          = Some r"
    using Suc.prems next_i by (intro Suc.IH) simp_all
  with less inb show ?case
    by (subst msb_loop.simps) (simp add: byte_at_div8)
qed

lemma stop_no_wrap:
  fixes bit_offset :: "64 word"
  assumes "unat bit_offset + n < 2 ^ 64"
  shows "unat (bit_offset + of_nat n) = unat bit_offset + n"
proof -
  from assms have "n < 2 ^ 64" by simp
  then have "unat (of_nat n :: 64 word) = n"
    by (simp add: unat_of_nat)
  with assms show ?thesis
    by (simp add: unat_word_ariths)
qed

lemma stop_wrap:
  fixes bit_offset :: "64 word"
  assumes "\<not> unat bit_offset + n < 2 ^ 64" and "n < 2 ^ 64"
  shows "\<not> bit_offset < bit_offset + of_nat n"
proof -
  have "unat (of_nat n :: 64 word) = n"
    using assms(2) by (simp add: unat_of_nat)
  then have "unat (bit_offset + of_nat n) = (unat bit_offset + n) mod 2 ^ 64"
    by (simp add: unat_word_ariths)
  also have "\<dots> = unat bit_offset + n - 2 ^ 64"
  proof -
    have "unat bit_offset < 2 ^ 64"
      using unsigned_less [of bit_offset] by simp
    with assms have "unat bit_offset + n - 2 ^ 64 < 2 ^ 64" "2 ^ 64 \<le> unat bit_offset + n"
      by simp_all
    then show ?thesis
      by (metis le_mod_geq mod_less)
  qed
  finally have "unat (bit_offset + of_nat n) \<le> unat bit_offset"
    using assms(2) by simp
  then show ?thesis
    by (simp add: word_less_nat_alt)
qed

lemma foldl_upt_shift:
  "foldl f a [off..<off + n] = foldl (\<lambda>a i. f a (off + i)) a [0..<n]"
proof -
  have "[off..<off + n] = map (\<lambda>i. off + i) [0..<n]"
    using map_add_upt [of off n] by (simp add: add.commute)
  then show ?thesis
    by (simp add: foldl_map)
qed

lemma big_f_raw_08: "unmarshal_raw big_f [0x08] 0 = Some 0"
  by code_simp

lemma msb_fold_bits:
  assumes "\<forall>m. bit raw m \<longrightarrow> m < k" and "bit (foldl (msb_step bytes) raw js) m"
  shows "m < k + length js"
  using assms
proof (induction js arbitrary: raw k)
  case Nil
  then show ?case by simp
next
  case (Cons j js)
  have "\<forall>m. bit (msb_step bytes raw j) m \<longrightarrow> m < Suc k"
    unfolding msb_step_def bit_or_iff bit_push_bit_iff
    using Cons.prems(1) by (auto simp: bit_1_iff split: if_splits)
  from Cons.IH [OF this] Cons.prems(2) show ?case
    by simp
qed

lemma unmarshal_raw_Some:
  assumes "unat bit_offset + n_bits d \<le> 8 * length bytes"
    and "unat bit_offset + n_bits d < 2 ^ 64"
  shows "\<exists>raw. unmarshal_raw d bytes bit_offset = Some raw"
proof -
  have stop: "unat bit_offset + n_bits d = unat (bit_offset + of_nat (n_bits d))"
    using assms(2) by (simp add: stop_no_wrap)
  with assms(1) have inb: "unat (bit_offset + of_nat (n_bits d)) \<le> 8 * length bytes"
    by simp
  show ?thesis
    using lsb_loop_Some [OF stop inb] msb_loop_Some [OF stop inb]
    by (simp add: unmarshal_raw_def lsb_unmarshal_def msb_unmarshal_def)
qed

lemma unmarshal_raw_upper_bits:
  assumes raw: "unmarshal_raw d bytes bit_offset = Some raw" and size: "n_bits d \<le> 32"
  shows "bit raw m \<Longrightarrow> m < n_bits d"
proof (cases "unat bit_offset + n_bits d < 2 ^ 64")
  case True
  then have stop: "unat bit_offset + n_bits d = unat (bit_offset + of_nat (n_bits d))"
    by (simp add: stop_no_wrap)
  assume m: "bit raw m"
  show ?thesis
  proof (cases "endian d = little")
    case True
    with raw have "lsb_loop bytes bit_offset (bit_offset + of_nat (n_bits d)) bit_offset 0 = Some raw"
      by (simp add: unmarshal_raw_def lsb_unmarshal_def)
    from lsb_loop_bits [OF stop order_refl this, of m] m stop show ?thesis
      by simp
  next
    case False
    with raw have "msb_loop bytes (bit_offset + of_nat (n_bits d)) bit_offset 0 = Some raw"
      by (simp add: unmarshal_raw_def msb_unmarshal_def)
    from msb_loop_foldl [OF stop this]
    have "raw = foldl (msb_step bytes) 0 [unat bit_offset..<unat bit_offset + n_bits d]"
      using stop by simp
    with m have "bit (foldl (msb_step bytes) 0 [unat bit_offset..<unat bit_offset + n_bits d]) m"
      by simp
    from msb_fold_bits [OF _ this, of 0] show ?thesis
      by simp
  qed
next
  case False
  assume m: "bit raw m"
  from size have "n_bits d < 2 ^ 64"
    by (rule le_less_trans) simp
  with False have "\<not> bit_offset < bit_offset + of_nat (n_bits d)"
    by (rule stop_wrap)
  with raw have "raw = 0"
    by (simp add: unmarshal_raw_def lsb_unmarshal_def msb_unmarshal_def
        lsb_loop.simps [of _ _ _ bit_offset] msb_loop.simps [of _ _ bit_offset] split: if_splits)
  with m show ?thesis
    by simp
qed

lemma unmarshal_raw_bound:
  assumes "unmarshal_raw d bytes bit_offset = Some raw" and "n_bits d \<le> 32"
  shows "uint raw < 2 ^ n_bits d"
proof -
  have "take_bit (n_bits d) raw = raw"
    using unmarshal_raw_upper_bits [OF assms]
    by (intro bit_word_eqI) (auto simp: bit_take_bit_iff)
  then have "uint raw = take_bit (n_bits d) (uint raw)"
    by (metis unsigned_take_bit_eq)
  then show ?thesis
    by (metis take_bit_int_less_exp)
qed

text \<open>
  C6: for a field of at most 32 bits whose bits lie inside the buffer (and whose last bit
  index fits \<open>std::size_t\<close>), \<open>unmarshal\<close> reads exactly \<open>n_bits\<close> bits from \<open>bit_offset\<close> on.
  LSB-first, bit \<open>i\<close> of the result is bit \<open>(bit_offset + i) % 8\<close> of byte
  \<open>(bit_offset + i) / 8\<close> for \<open>i < n_bits\<close>, and no other bit is set. MSB-first, the result
  is built from 0 by shifting left and OR-ing bit \<open>7 - (bit_offset + i) % 8\<close> of byte
  \<open>(bit_offset + i) / 8\<close>, for \<open>i\<close> from 0 to \<open>n_bits - 1\<close>.
\<close>

theorem field_bit_extraction:
  assumes size: "n_bits d \<le> 32"
    and covered: "unat bit_offset + n_bits d \<le> 8 * length bytes"
    and index: "unat bit_offset + n_bits d < 2 ^ 64"
  shows "(endian d = little \<longrightarrow>
            (\<exists>raw. unmarshal_raw d bytes bit_offset = Some raw
               \<and> (\<forall>i. bit raw i \<longleftrightarrow>
                      i < n_bits d
                      \<and> bit (bytes ! ((unat bit_offset + i) div 8)) ((unat bit_offset + i) mod 8))))
       \<and> (endian d = big \<longrightarrow>
            unmarshal_raw d bytes bit_offset =
              Some (foldl (\<lambda>raw i. push_bit 1 raw OR
                                      (if bit (bytes ! ((unat bit_offset + i) div 8))
                                              (7 - (unat bit_offset + i) mod 8)
                                       then 1 else 0))
                      0 [0..<n_bits d]))"
proof (intro conjI impI)
  let ?stop = "bit_offset + of_nat (n_bits d)"
  have stop: "unat bit_offset + n_bits d = unat ?stop"
    using index by (simp add: stop_no_wrap)
  have inb: "unat ?stop \<le> 8 * length bytes"
    using covered stop by simp
  {
    assume "endian d = little"
    from lsb_loop_Some [OF stop inb] obtain raw where
      raw: "lsb_loop bytes bit_offset ?stop bit_offset 0 = Some raw"
      by blast
    have "bit raw i \<longleftrightarrow>
            i < n_bits d
            \<and> bit (bytes ! ((unat bit_offset + i) div 8)) ((unat bit_offset + i) mod 8)" for i
      using lsb_loop_bits [OF stop order_refl raw, of i] size stop by auto
    with raw \<open>endian d = little\<close>
    show "\<exists>raw. unmarshal_raw d bytes bit_offset = Some raw
               \<and> (\<forall>i. bit raw i \<longleftrightarrow>
                      i < n_bits d
                      \<and> bit (bytes ! ((unat bit_offset + i) div 8)) ((unat bit_offset + i) mod 8))"
      by (simp add: unmarshal_raw_def lsb_unmarshal_def)
  }
  {
    assume "endian d = big"
    from msb_loop_Some [OF stop inb] obtain raw where
      raw: "msb_loop bytes ?stop bit_offset 0 = Some raw"
      by blast
    from msb_loop_foldl [OF stop raw]
    have "raw = foldl (msb_step bytes) 0 [unat bit_offset..<unat bit_offset + n_bits d]"
      using stop by simp
    then have "raw = foldl (\<lambda>raw i. msb_step bytes raw (unat bit_offset + i)) 0 [0..<n_bits d]"
      by (simp only: foldl_upt_shift)
    with raw \<open>endian d = big\<close>
    show "unmarshal_raw d bytes bit_offset =
              Some (foldl (\<lambda>raw i. push_bit 1 raw OR
                                      (if bit (bytes ! ((unat bit_offset + i) div 8))
                                              (7 - (unat bit_offset + i) mod 8)
                                       then 1 else 0))
                      0 [0..<n_bits d])"
      by (simp add: unmarshal_raw_def msb_unmarshal_def msb_step_def)
  }
qed

theorem field_bit_extraction_witness:
  "n_bits second_f \<le> 32
   \<and> unat (4 :: 64 word) + n_bits second_f \<le> 8 * length [0x80, 0x0A :: 8 word]
   \<and> unat (4 :: 64 word) + n_bits second_f < 2 ^ 64
   \<and> endian second_f = little
   \<and> (\<exists>raw. unmarshal_raw second_f [0x80, 0x0A] 4 = Some raw
         \<and> (\<forall>i. bit raw i \<longleftrightarrow>
                i < n_bits second_f
                \<and> bit ([0x80, 0x0A :: 8 word] ! ((unat (4 :: 64 word) + i) div 8))
                       ((unat (4 :: 64 word) + i) mod 8)))
   \<and> n_bits big_f \<le> 32
   \<and> unat (0 :: 64 word) + n_bits big_f \<le> 8 * length [0x08 :: 8 word]
   \<and> unat (0 :: 64 word) + n_bits big_f < 2 ^ 64
   \<and> endian big_f = big
   \<and> unmarshal_raw big_f [0x08] 0 =
       Some (foldl (\<lambda>raw i. push_bit 1 raw OR
                      (if bit ([0x08 :: 8 word] ! ((unat (0 :: 64 word) + i) div 8))
                              (7 - (unat (0 :: 64 word) + i) mod 8)
                       then 1 else 0))
               0 [0..<n_bits big_f])"
proof -
  have a: "n_bits second_f \<le> 32"
    "unat (4 :: 64 word) + n_bits second_f \<le> 8 * length [0x80, 0x0A :: 8 word]"
    "unat (4 :: 64 word) + n_bits second_f < 2 ^ 64"
    "endian second_f = little"
    by simp_all
  have b: "n_bits big_f \<le> 32"
    "unat (0 :: 64 word) + n_bits big_f \<le> 8 * length [0x08 :: 8 word]"
    "unat (0 :: 64 word) + n_bits big_f < 2 ^ 64"
    "endian big_f = big"
    by (simp_all add: big_f_def)
  show ?thesis
    using field_bit_extraction [OF a(1-3)] field_bit_extraction [OF b(1-3)] a b
    by blast
qed

section \<open>Value types and the default condition\<close>

lemma cast_to_in_range: "in_range T (cast_to T x)"
  by (cases T) (auto simp: in_range_def cast_to_def type_min_def type_max_def Let_def
      intro: pos_mod_sign  simp: pos_mod_bound [THEN less_imp_le])

lemma mod_neg_window:
  fixes x m :: int
  assumes "0 < m" and "- m \<le> x" and "x < 0"
  shows "x mod m = x + m"
proof -
  have "x mod m = (x + m) mod m"
    by simp
  also have "\<dots> = x + m"
    using assms by (intro mod_pos_pos_trivial) simp_all
  finally show ?thesis .
qed

lemma cast_to_id:
  assumes "in_range T x"
  shows "cast_to T x = x"
proof (cases "x < 0")
  case True
  with assms show ?thesis
    by (cases T)
      (simp_all add: in_range_def cast_to_def type_min_def type_max_def Let_def mod_neg_window)
next
  case False
  with assms show ?thesis
    by (cases T)
      (simp_all add: in_range_def cast_to_def type_min_def type_max_def Let_def
        mod_pos_pos_trivial)
qed

lemma type_bits_le_32: "type_bits T \<le> 32"
  by (cases T) simp_all

lemma default_max_eq:
  assumes "n_bits d \<le> type_bits (value_type d)"
    and "\<not> (type_signed (value_type d) \<and> n_bits d = type_bits (value_type d) \<and> n_bits d \<noteq> 32)"
  shows "default_max d = min (type_max (value_type d)) (2 ^ n_bits d - 1)"
proof (cases "n_bits d = 32")
  case True
  with assms(1) show ?thesis
    by (cases "value_type d") (simp_all add: default_max_def cast_to_def type_max_def)
next
  case False
  have p: "(2 :: int) ^ n_bits d \<le> 2 ^ k" if "n_bits d \<le> k" for k
    using that by (simp add: power_increasing)
  have le: "2 ^ n_bits d - 1 \<le> type_max (value_type d)"
    using assms False p [of 8] p [of 7] p [of 16] p [of 15] p [of 32] p [of 31]
    by (cases "value_type d") (simp_all add: type_max_def)
  moreover have "type_min (value_type d) \<le> 2 ^ n_bits d - 1"
  proof -
    have "(0 :: int) < 2 ^ n_bits d"
      by simp
    moreover have "type_min (value_type d) \<le> 0"
      by (cases "value_type d") (simp_all add: type_min_def)
    ultimately show ?thesis
      by linarith
  qed
  ultimately have "cast_to (value_type d) (2 ^ n_bits d - 1) = 2 ^ n_bits d - 1"
    by (intro cast_to_id) (simp add: in_range_def)
  with False le show ?thesis
    by (simp add: default_max_def)
qed

lemma validate_default:
  "m_condition f = Default_range \<Longrightarrow>
     validate f = f\<lparr>m_valid := type_min (value_type (decl f)) \<le> m_value f
                                 \<and> m_value f \<le> default_max (decl f)\<rparr>"
  by (simp add: validate_def)

lemma unmarshal_default_valid:
  assumes wf: "wf_decl (decl f)"
    and sound: "\<not> (type_signed (value_type (decl f)) \<and> n_bits (decl f) = type_bits (value_type (decl f))
                 \<and> n_bits (decl f) \<noteq> 32)"
    and cond: "m_condition f = Default_range"
    and run: "unmarshal f bytes bit_offset = Some f'"
  shows "m_valid f'"
proof -
  let ?T = "value_type (decl f)" and ?n = "n_bits (decl f)"
  from wf have n: "?n \<le> type_bits ?T"
    by (simp add: wf_decl_def)
  with type_bits_le_32 [of ?T] have n32: "?n \<le> 32"
    by simp
  from run obtain raw where raw: "unmarshal_raw (decl f) bytes bit_offset = Some raw"
    and f': "f' = validate (f\<lparr>m_value := from_raw ?T raw\<rparr>)"
    by (auto simp: unmarshal_def split: option.splits)
  have bound: "uint raw < 2 ^ ?n"
    using raw n32 by (rule unmarshal_raw_bound)
  have max: "default_max (decl f) = min (type_max ?T) (2 ^ ?n - 1)"
    using n sound by (rule default_max_eq)
  have rng: "in_range ?T (from_raw ?T raw)"
    by (simp add: from_raw_def cast_to_in_range)
  have "type_min ?T \<le> from_raw ?T raw \<and> from_raw ?T raw \<le> min (type_max ?T) (2 ^ ?n - 1)"
  proof (cases "2 ^ ?n - 1 \<le> type_max ?T")
    case True
    have "type_min ?T \<le> 0"
      by (cases ?T) (simp_all add: type_min_def)
    moreover have pos: "0 \<le> uint raw"
      by simp
    ultimately have lo: "type_min ?T \<le> uint raw"
      by linarith
    with True bound have "in_range ?T (uint raw)"
      unfolding in_range_def by linarith
    then have "from_raw ?T raw = uint raw"
      by (simp add: from_raw_def cast_to_id)
    with True bound lo show ?thesis
      by simp
  next
    case False
    with rng show ?thesis
      by (simp add: in_range_def)
  qed
  with max cond show ?thesis
    unfolding f' by (simp add: validate_default)
qed

text \<open>The default check of a 4-bit field over a 16-bit type: every decoded value passes and
  lies in \<open>[0, 15]\<close>, and an assigned value passes exactly up to 15.\<close>

lemma default_range_4_bits_of_16:
  assumes T: "type_bits (value_type (decl f)) = 16" and n: "n_bits (decl f) = 4"
    and c: "m_condition f = Default_range"
  shows "m_valid (assign f v) \<longleftrightarrow> type_min (value_type (decl f)) \<le> v \<and> v \<le> 15"
    and "unmarshal f bytes bit_offset = Some f' \<Longrightarrow>
           m_valid f' \<and> 0 \<le> m_value f' \<and> m_value f' \<le> 15"
proof -
  have max: "default_max (decl f) = 15"
    using default_max_eq [of "decl f"] T n
    by (cases "value_type (decl f)") (simp_all add: type_max_def)
  show "m_valid (assign f v) \<longleftrightarrow> type_min (value_type (decl f)) \<le> v \<and> v \<le> 15"
    using max c by (simp add: assign_def validate_default)
  assume run: "unmarshal f bytes bit_offset = Some f'"
  then obtain raw where raw: "unmarshal_raw (decl f) bytes bit_offset = Some raw"
    and f': "f' = validate (f\<lparr>m_value := from_raw (value_type (decl f)) raw\<rparr>)"
    by (auto simp: unmarshal_def split: option.splits)
  from unmarshal_raw_bound [OF raw] n have bound: "uint raw < 16"
    by simp
  have low: "type_min (value_type (decl f)) \<le> 0"
    by (cases "value_type (decl f)") (simp_all add: type_min_def)
  moreover have pos: "0 \<le> uint raw"
    by simp
  ultimately have lo: "type_min (value_type (decl f)) \<le> uint raw"
    by linarith
  have hi: "uint raw \<le> type_max (value_type (decl f))"
    using bound T by (cases "value_type (decl f)") (simp_all add: type_max_def)
  from lo hi have v: "from_raw (value_type (decl f)) raw = uint raw"
    by (simp add: from_raw_def cast_to_id in_range_def)
  from bound v max c lo show "m_valid f' \<and> 0 \<le> m_value f' \<and> m_value f' \<le> 15"
    unfolding f' by (simp add: validate_default)
qed

text \<open>
  C9, as stated, fails: \<open>any()\<close> is the default-constructed field, whose condition is the
  default range check, and that check rejects 16 in a 4-bit field over \<open>std::uint16_t\<close>.
\<close>

theorem any_rejects_counterexample:
  "in_range UInt16 16 \<and> \<not> m_valid (assign (any first_f) 16)"
  by (simp add: in_range_def type_min_def type_max_def assign_def any_def field_with_def
      validate_def default_max_def cast_to_def)

text \<open>
  C9, amended: a field built by \<open>any()\<close> carries the default range check. For a declaration
  other than a signed 8- or 16-bit type used at its full width, assigning \<open>v\<close> makes the
  field valid exactly when \<open>v\<close> is between the type's minimum and
  \<open>min(type-max, 2^n_bits - 1)\<close>, and every \<open>unmarshal\<close> makes it valid, whatever the bytes;
  \<open>unmarshal\<close> returns whenever the field's bits lie inside the buffer.
\<close>

theorem any_accepts_in_range:
  assumes wf: "wf_decl d"
    and sound: "\<not> (type_signed (value_type d) \<and> n_bits d = type_bits (value_type d)
                 \<and> n_bits d \<noteq> 32)"
  shows "m_condition (any d) = Default_range
       \<and> (m_valid (assign (any d) v) \<longleftrightarrow>
            type_min (value_type d) \<le> v \<and> v \<le> min (type_max (value_type d)) (2 ^ n_bits d - 1))
       \<and> (\<forall>bytes bit_offset f'. unmarshal (any d) bytes bit_offset = Some f' \<longrightarrow> m_valid f')
       \<and> (\<forall>bytes bit_offset.
            unat bit_offset + n_bits d \<le> 8 * length bytes \<and> unat bit_offset + n_bits d < 2 ^ 64 \<longrightarrow>
            (\<exists>f'. unmarshal (any d) bytes bit_offset = Some f' \<and> m_valid f'))"
proof -
  have d: "decl (any d) = d" and c: "m_condition (any d) = Default_range"
    by (simp_all add: any_def field_with_def)
  from wf have n: "n_bits d \<le> type_bits (value_type d)"
    by (simp add: wf_decl_def)
  have max: "default_max d = min (type_max (value_type d)) (2 ^ n_bits d - 1)"
    using n sound by (rule default_max_eq)
  have a: "m_valid (assign (any d) v) \<longleftrightarrow>
            type_min (value_type d) \<le> v \<and> v \<le> min (type_max (value_type d)) (2 ^ n_bits d - 1)"
    using max by (simp add: assign_def validate_default c d)
  have b: "m_valid f'" if "unmarshal (any d) bytes bit_offset = Some f'" for bytes bit_offset f'
    using that wf sound by (intro unmarshal_default_valid [of "any d"]) (simp_all add: c d)
  have e: "\<exists>f'. unmarshal (any d) bytes bit_offset = Some f' \<and> m_valid f'"
    if "unat bit_offset + n_bits d \<le> 8 * length bytes \<and> unat bit_offset + n_bits d < 2 ^ 64"
    for bytes bit_offset
  proof -
    from that unmarshal_raw_Some [of bit_offset d bytes]
    obtain raw where "unmarshal_raw d bytes bit_offset = Some raw"
      by blast
    then obtain f' where "unmarshal (any d) bytes bit_offset = Some f'"
      by (simp add: unmarshal_def d)
    with b show ?thesis
      by blast
  qed
  from c a b e show ?thesis
    by blast
qed

theorem any_accepts_in_range_witness:
  "wf_decl second_f
   \<and> \<not> (type_signed (value_type second_f) \<and> n_bits second_f = type_bits (value_type second_f)
         \<and> n_bits second_f \<noteq> 32)
   \<and> unmarshal (any second_f) [0x80, 0x0A] 4 =
       Some \<lparr>decl = second_f, m_condition = Default_range, m_valid = True, m_value = 168\<rparr>
   \<and> m_valid \<lparr>decl = second_f, m_condition = Default_range, m_valid = True, m_value = 168\<rparr>
   \<and> m_valid (assign (any second_f) 4095)
   \<and> \<not> m_valid (assign (any second_f) 4096)"
proof -
  have wf: "wf_decl second_f"
    by (simp add: wf_decl_def)
  have sound: "\<not> (type_signed (value_type second_f)
                  \<and> n_bits second_f = type_bits (value_type second_f) \<and> n_bits second_f \<noteq> 32)"
    by simp
  show ?thesis
    using any_accepts_in_range [OF wf sound, of 4095] any_accepts_in_range [OF wf sound, of 4096]
      wf sound any_second_f_80
    by (simp add: type_min_def type_max_def)
qed

text \<open>
  C2 at a field of 8 bits over \<open>std::int8_t\<close> with no explicit condition: the value 5 lies
  between the type's minimum and \<open>min(type-max, 2^8 - 1) = 127\<close>, yet the field is invalid
  after assigning 5 and after decoding the byte 5. The code takes the type's maximum only when
  \<open>NBitsT == 32\<close>; here the bound is \<open>static_cast<int8_t>(255) = -1\<close>.
\<close>

theorem default_range_rejects_int8:
  "type_min Int8 \<le> 5 \<and> 5 \<le> min (type_max Int8) (2 ^ 8 - 1)
   \<and> n_bits int8_f = type_bits (value_type int8_f)
   \<and> m_condition (any int8_f) = Default_range
   \<and> \<not> m_valid (assign (any int8_f) 5)
   \<and> unmarshal (any int8_f) [0x05] 0 =
       Some \<lparr>decl = int8_f, m_condition = Default_range, m_valid = False, m_value = 5\<rparr>"
proof -
  have raw: "unmarshal_raw int8_f [0x05] 0 = Some 5"
    by code_simp
  have max: "default_max int8_f = - 1"
    by (simp add: default_max_def int8_f_def cast_to_def)
  have T: "value_type int8_f = Int8" "n_bits int8_f = 8"
    by (simp_all add: int8_f_def)
  show ?thesis
    by (simp add: type_min_def type_max_def assign_def any_def field_with_def validate_def
        unmarshal_def raw max T from_raw_def cast_to_def)
qed

section \<open>Marshalling a field\<close>

lemma written_bit:
  "bit (ucast (push_bit s (drop_bit k (raw :: 32 word) AND 1)) :: 8 word) b
     \<longleftrightarrow> b < 8 \<and> b = s \<and> bit raw k"
proof -
  have "drop_bit k raw AND 1 = of_bool (bit raw k)"
    by (simp add: and_one_eq mod_2_eq_odd bit_iff_odd_drop_bit)
  then show ?thesis
    by (auto simp: bit_simps)
qed

lemma bit_index_split:
  fixes j b k :: nat
  assumes "b < 8"
  shows "8 * j + b = k \<longleftrightarrow> j = k div 8 \<and> b = k mod 8"
  using assms by auto

text \<open>Both loops of \<open>marshal\<close> write bit \<open>g i\<close> of \<open>raw\<close> to bit \<open>i % 8\<close> of byte \<open>i / 8\<close>.\<close>

lemma marshal_loop_bits:
  fixes step :: "8 word list \<Rightarrow> nat \<Rightarrow> 8 word list" and raw :: "32 word"
  assumes step: "\<And>bs i. step bs i =
                   bs[i div 8 := bs ! (i div 8) OR ucast (push_bit (i mod 8) (drop_bit (g i) raw AND 1))]"
    and "k \<le> 8 * nb"
  shows "length (foldl step (replicate nb 0) [0..<k]) = nb
         \<and> (\<forall>j<nb. \<forall>b. bit (foldl step (replicate nb 0) [0..<k] ! j) b \<longleftrightarrow>
              b < 8 \<and> 8 * j + b < k \<and> bit raw (g (8 * j + b)))"
  using assms(2)
proof (induction k)
  case 0
  then show ?case by simp
next
  case (Suc k)
  define bs where "bs = foldl step (replicate nb 0) [0..<k]"
  define w :: "8 word" where "w = ucast (push_bit (k mod 8) (drop_bit (g k) raw AND 1))"
  from Suc have len: "length bs = nb"
    and IH: "\<And>j b. j < nb \<Longrightarrow>
               bit (bs ! j) b \<longleftrightarrow> b < 8 \<and> 8 * j + b < k \<and> bit raw (g (8 * j + b))"
    by (simp_all add: bs_def)
  from Suc.prems have k: "k div 8 < nb"
    by simp
  have w: "bit w b \<longleftrightarrow> b < 8 \<and> b = k mod 8 \<and> bit raw (g k)" for b
    unfolding w_def by (rule written_bit)
  have next_bs: "foldl step (replicate nb 0) [0..<Suc k] = bs[k div 8 := bs ! (k div 8) OR w]"
  proof -
    have "foldl step (replicate nb 0) [0..<Suc k] = step bs k"
      by (simp add: bs_def)
    also have "\<dots> = bs[k div 8 := bs ! (k div 8) OR w]"
      unfolding w_def by (rule step)
    finally show ?thesis .
  qed
  have "bit (bs[k div 8 := bs ! (k div 8) OR w] ! j) b
          \<longleftrightarrow> b < 8 \<and> 8 * j + b < Suc k \<and> bit raw (g (8 * j + b))" if j: "j < nb" for j b
  proof (cases "j = k div 8")
    case True
    then have here: "bs[k div 8 := bs ! (k div 8) OR w] ! j = bs ! j OR w"
      using k len by simp
    have "b < 8 \<Longrightarrow> 8 * j + b = k \<longleftrightarrow> b = k mod 8"
      using True bit_index_split [of b j k] by simp
    then show ?thesis
      unfolding here bit_or_iff w IH [OF j] less_Suc_eq by (cases "b < 8") auto
  next
    case False
    then have there: "bs[k div 8 := bs ! (k div 8) OR w] ! j = bs ! j"
      by simp
    from False have "b < 8 \<Longrightarrow> 8 * j + b \<noteq> k"
      using bit_index_split [of b j k] by simp
    then show ?thesis
      unfolding there IH [OF j] less_Suc_eq by (cases "b < 8") auto
  qed
  with len next_bs show ?case
    by simp
qed

lemma marshal_bits:
  shows "length (marshal f) = n_bytes (decl f)"
    and "j < n_bytes (decl f) \<Longrightarrow>
         bit (marshal f ! j) b \<longleftrightarrow>
           b < 8 \<and> 8 * j + b < n_bits (decl f)
           \<and> bit (to_raw (value_type (decl f)) (m_value f))
                 (if endian (decl f) = little then 8 * j + b
                  else n_bits (decl f) - (8 * j + b) - 1)"
proof -
  let ?n = "n_bits (decl f)" and ?raw = "to_raw (value_type (decl f)) (m_value f)"
  have n: "?n \<le> 8 * n_bytes (decl f)"
    by (simp add: n_bytes_def)
  have little:
    "length (foldl (marshal_little_step ?raw) (replicate (n_bytes (decl f)) 0) [0..<?n])
       = n_bytes (decl f)
     \<and> (\<forall>j<n_bytes (decl f). \<forall>b.
           bit (foldl (marshal_little_step ?raw) (replicate (n_bytes (decl f)) 0) [0..<?n] ! j) b
             \<longleftrightarrow> b < 8 \<and> 8 * j + b < ?n \<and> bit ?raw (8 * j + b))"
    by (rule marshal_loop_bits [where g = "\<lambda>i. i"]) (simp_all add: marshal_little_step_def n)
  have big:
    "length (foldl (marshal_big_step ?n ?raw) (replicate (n_bytes (decl f)) 0) [0..<?n])
       = n_bytes (decl f)
     \<and> (\<forall>j<n_bytes (decl f). \<forall>b.
           bit (foldl (marshal_big_step ?n ?raw) (replicate (n_bytes (decl f)) 0) [0..<?n] ! j) b
             \<longleftrightarrow> b < 8 \<and> 8 * j + b < ?n \<and> bit ?raw (?n - (8 * j + b) - 1))"
    by (rule marshal_loop_bits [where g = "\<lambda>i. ?n - i - 1"]) (simp_all add: marshal_big_step_def n)
  show "length (marshal f) = n_bytes (decl f)"
    using little big by (simp add: marshal_def Let_def)
  show "bit (marshal f ! j) b \<longleftrightarrow>
           b < 8 \<and> 8 * j + b < ?n
           \<and> bit ?raw (if endian (decl f) = little then 8 * j + b else ?n - (8 * j + b) - 1)"
    if "j < n_bytes (decl f)"
    using little big that by (simp add: marshal_def Let_def)
qed

text \<open>Little-endian, \<open>unmarshal\<close> undoes \<open>marshal\<close>: the decoded \<open>raw\<close> is the low \<open>n_bits\<close> bits of
  the value, and a fresh field of the same declaration gets a non-negative value of at most
  \<open>n_bits\<close> bits back unchanged.\<close>

lemma little_endian_round_trip:
  assumes little: "endian (decl f) = little" and size: "n_bits (decl f) \<le> 32"
  shows "unmarshal_raw (decl f) (marshal f) 0 =
           Some (take_bit (n_bits (decl f)) (to_raw (value_type (decl f)) (m_value f)))"
proof -
  let ?n = "n_bits (decl f)" and ?raw = "to_raw (value_type (decl f)) (m_value f)"
  have len: "length (marshal f) = n_bytes (decl f)"
    by (rule marshal_bits)
  have stop: "unat (0 :: 64 word) + ?n = unat ((0 :: 64 word) + of_nat ?n)"
    using size by (subst stop_no_wrap) simp_all
  have inb: "unat ((0 :: 64 word) + of_nat ?n) \<le> 8 * length (marshal f)"
    unfolding stop [symmetric] len by (simp add: n_bytes_def)
  from lsb_loop_Some [OF stop inb] obtain r where
    r: "lsb_loop (marshal f) 0 (0 + of_nat ?n) 0 0 = Some r"
    by blast
  have "bit r m \<longleftrightarrow> bit (take_bit ?n ?raw) m" for m
  proof -
    have "bit r m \<longleftrightarrow> m < 32 \<and> m < ?n \<and> bit (marshal f ! (m div 8)) (m mod 8)"
      using lsb_loop_bits [OF stop order_refl r, of m] stop by simp
    also have "\<dots> \<longleftrightarrow> m < 32 \<and> m < ?n \<and> bit ?raw m"
    proof (cases "m < ?n")
      case True
      then have "m div 8 < n_bytes (decl f)"
        by (simp add: n_bytes_def)
      from marshal_bits(2) [where f = f and b = "m mod 8", OF this] True little show ?thesis
        by simp
    next
      case False
      then show ?thesis by simp
    qed
    also have "\<dots> \<longleftrightarrow> bit (take_bit ?n ?raw) m"
      by (auto simp: bit_take_bit_iff dest: bit_imp_le_length)
    finally show ?thesis .
  qed
  then have "r = take_bit ?n ?raw"
    by (rule bit_word_eqI)
  with r little show ?thesis
    by (simp add: unmarshal_raw_def lsb_unmarshal_def)
qed

lemma from_raw_low_bits:
  assumes "n \<le> 32" and "in_range T v" and "0 \<le> v" and "v < 2 ^ n"
  shows "from_raw T (take_bit n (to_raw T v)) = v"
proof -
  have "v < 2 ^ type_bits T"
    using assms(2) by (cases T) (simp_all add: in_range_def type_max_def)
  with assms(3) have "to_raw T v = word_of_int v"
    by (simp add: to_raw_def mod_pos_pos_trivial)
  moreover have "(2 :: int) ^ n \<le> 2 ^ 32"
    using assms(1) by (intro power_increasing) simp_all
  with assms(4) have "v < 2 ^ 32"
    by linarith
  with assms(3) have "uint (word_of_int v :: 32 word) = v"
    by (simp add: uint_word_of_int_eq take_bit_int_eq_self)
  moreover have "take_bit n v = v"
    using assms(3,4) by (simp add: take_bit_int_eq_self)
  ultimately have "uint (take_bit n (to_raw T v)) = v"
    by (simp add: unsigned_take_bit_eq)
  with assms(2) show ?thesis
    by (simp add: from_raw_def cast_to_id)
qed

lemma little_endian_round_trip_field:
  assumes "endian (decl f) = little" and "n_bits (decl f) \<le> 32"
    and "in_range (value_type (decl f)) (m_value f)"
    and "0 \<le> m_value f" and "m_value f < 2 ^ n_bits (decl f)"
  shows "unmarshal (field_with (decl f) (m_condition f)) (marshal f) 0 =
           Some (validate ((field_with (decl f) (m_condition f))\<lparr>m_value := m_value f\<rparr>))"
  using little_endian_round_trip [OF assms(1,2)] from_raw_low_bits [OF assms(2-5)]
  by (simp add: unmarshal_def field_with_def)

lemma marshal_unused_bits_zero:
  assumes "j < n_bytes (decl f)" and "bit (marshal f ! j) b"
  shows "8 * j + b < n_bits (decl f)"
  using marshal_bits(2) [where f = f and b = b, OF assms(1)] assms(2) by simp

text \<open>
  C1 at a big-endian field of 4 bits over \<open>std::uint8_t\<close> holding 1, which satisfies the
  default condition: \<open>marshal\<close> writes the field's most significant bit to bit 0 of the byte
  and gives \<open>{0x08}\<close>, \<open>unmarshal\<close> reads the most significant bit from bit 7 and gives 0.
\<close>

theorem big_endian_round_trip_fails:
  "m_valid (assign (any big_f) 1)
   \<and> m_value (assign (any big_f) 1) = 1
   \<and> marshal (assign (any big_f) 1) = [0x08]
   \<and> unmarshal (any big_f) [0x08] 0 =
       Some \<lparr>decl = big_f, m_condition = Default_range, m_valid = True, m_value = 0\<rparr>"
proof -
  have max: "default_max big_f = 15"
    by (simp add: default_max_def big_f_def cast_to_def)
  have T: "value_type big_f = UInt8" "n_bits big_f = 4" "endian big_f = big"
    by (simp_all add: big_f_def)
  have f: "assign (any big_f) 1 =
             \<lparr>decl = big_f, m_condition = Default_range, m_valid = True, m_value = 1\<rparr>"
    by (simp add: assign_def any_def field_with_def validate_def max T type_min_def)
  have m: "marshal \<lparr>decl = big_f, m_condition = Default_range, m_valid = True, m_value = 1\<rparr> = [0x08]"
    by code_simp
  have u: "unmarshal (any big_f) [0x08] 0 =
       Some \<lparr>decl = big_f, m_condition = Default_range, m_valid = True, m_value = 0\<rparr>"
    by (simp add: unmarshal_def any_def field_with_def big_f_raw_08 validate_def max T type_min_def
        from_raw_def cast_to_def)
  from f m u show ?thesis
    by simp
qed

end
